theory Spec2Isabelle
  imports Main "HOL-Library.Sublist" "HOL-Library.AList" "HOL-Library.Monad_Syntax"
begin

section \<open>CODE-DNA: the correlation pipeline\<close>

text \<open>
  A shallow embedding of the parts of the extension that link chat turns to code edits:
  the diff resolver (\<^verbatim>\<open>utils/gitDiff.ts\<close>), the conversation poller
  (\<^verbatim>\<open>detectors/bubblePairDetector.ts\<close>, in the version that has the completion
  filter), the enricher and the pair pipeline (\<^verbatim>\<open>detectors/pairEnricher.ts\<close>,
  \<^verbatim>\<open>detectors/aiContextPipeline.ts\<close>) and the branch snapshotter
  (\<^verbatim>\<open>utils/gitCommit.ts\<close>).

  Conventions. A JavaScript \<^verbatim>\<open>number\<close> that holds a line number or a
  millisecond time stamp is an \<^typ>\<open>int\<close>. A string is a \<^typ>\<open>string\<close>
  holding the bytes of its UTF-8 form; the white space of regular expressions and of
  \<^verbatim>\<open>trim\<close> is the ASCII white space (the other Unicode spaces that ECMAScript
  also counts are not modelled; the general statements below do not depend on which
  characters count as white space). A rejected promise or a thrown exception is the left summand of a sum
  type, or an \<^typ>\<open>'a option\<close> holding the error. \<^verbatim>\<open>Date.now()\<close> and the
  answers of the conversation store, of the change log, of git and of the callback are
  parameters of the functions that consume them; mutable fields are passed in and
  returned. Log output is left out.
\<close>

subsection \<open>Line ranges and the merge step (\<^verbatim>\<open>gitDiff.ts\<close>)\<close>

record Range =
  start :: int
  "end" :: int

text \<open>
  The loop of \<^verbatim>\<open>mergeAdjacentRanges\<close>: \<open>merged\<close> is the array built
  so far (never empty: it starts as \<^verbatim>\<open>[sorted[0]]\<close>), \<open>prev\<close> its last
  element, which the source updates in place. The function is private to its module and
  its only caller builds every range as a fresh object, so no two array slots alias and
  the in-place update is the replacement of the last element.
\<close>

fun mergeLoop :: "Range list \<Rightarrow> Range list \<Rightarrow> Range list" where
  "mergeLoop merged [] = merged"
| "mergeLoop merged (cur # todo) =
     (let prev = last merged in
      if start cur \<le> end prev + 1
      then mergeLoop (butlast merged @ [prev\<lparr>end := max (end prev) (end cur)\<rparr>]) todo
      else mergeLoop (merged @ [cur]) todo)"

text \<open>
  \<^verbatim>\<open>[...ranges].sort((a, b) => a.start - b.start)\<close> is a stable sort on
  the start line, as \<^const>\<open>sort_key\<close> is.
\<close>

definition mergeAdjacentRanges :: "Range list \<Rightarrow> Range list" where
  "mergeAdjacentRanges ranges =
     (if length ranges \<le> 1 then ranges
      else (case sort_key start ranges of
              [] \<Rightarrow> []
            | s0 # todo \<Rightarrow> mergeLoop [s0] todo))"

text \<open>Vocabulary for the statements: the lines of a range, one range inside another,
  and two ranges in order with at least one line between them.\<close>

definition lines :: "Range \<Rightarrow> int set" where
  "lines r = {start r .. end r}"

definition covers :: "Range \<Rightarrow> Range \<Rightarrow> bool" where
  "covers m r = (start m \<le> start r \<and> end r \<le> end m)"

definition apart :: "Range \<Rightarrow> Range \<Rightarrow> bool" where
  "apart p n = (start p \<le> start n \<and> end p + 2 \<le> start n)"

text \<open>The same loop with the last element of \<open>merged\<close> kept apart; used in the
  proofs only.\<close>

fun mergeFrom :: "Range \<Rightarrow> Range list \<Rightarrow> Range list" where
  "mergeFrom prev [] = [prev]"
| "mergeFrom prev (cur # todo) =
     (if start cur \<le> end prev + 1
      then mergeFrom (prev\<lparr>end := max (end prev) (end cur)\<rparr>) todo
      else prev # mergeFrom cur todo)"

subsection \<open>Hunk headers (\<^verbatim>\<open>gitDiff.ts\<close>)\<close>

text \<open>
  The regular expression \<^verbatim>\<open>CHUNK_HEADER\<close> reads, from the start of the string:
  \<^verbatim>\<open>@@\<close>, white space, \<^verbatim>\<open>-\<close>, digits, optionally a comma and digits,
  white space, \<^verbatim>\<open>+\<close>, digits (group 1), optionally a comma and digits (group 2),
  white space, \<^verbatim>\<open>@@\<close>; anything may follow. Digits, comma and white space are
  disjoint character classes and every repetition is followed by a character outside its
  class, so the greedy match never has to back off: the matcher below reads the string
  once, left to right. \<open>many1\<close> is one or more characters of a class, \<open>lit\<close> a
  literal, \<open>optCount\<close> the optional group.
\<close>

definition isDigit :: "char \<Rightarrow> bool" where
  "isDigit c = (c \<in> set ''0123456789'')"

definition isWhiteSpace :: "char \<Rightarrow> bool" where
  "isWhiteSpace c = ((of_char c :: nat) \<in> {9, 10, 11, 12, 13, 32})"

definition lit :: "string \<Rightarrow> string \<Rightarrow> string option" where
  "lit l s = (if take (length l) s = l then Some (drop (length l) s) else None)"

definition many1 :: "(char \<Rightarrow> bool) \<Rightarrow> string \<Rightarrow> (string \<times> string) option" where
  "many1 p s = (if takeWhile p s = [] then None else Some (takeWhile p s, dropWhile p s))"

definition optCount :: "string \<Rightarrow> string option \<times> string" where
  "optCount s =
     (case lit '','' s of
        None \<Rightarrow> (None, s)
      | Some t \<Rightarrow> (case many1 isDigit t of None \<Rightarrow> (None, s) | Some (d, r) \<Rightarrow> (Some d, r)))"

definition CHUNK_HEADER :: "string \<Rightarrow> (string \<times> string option) option" where
  "CHUNK_HEADER s0 = do {
     s1 \<leftarrow> lit ''@@'' s0;
     (w1, s2) \<leftarrow> many1 isWhiteSpace s1;
     s3 \<leftarrow> lit ''-'' s2;
     (a, s4) \<leftarrow> many1 isDigit s3;
     let (b, s5) = optCount s4;
     (w2, s6) \<leftarrow> many1 isWhiteSpace s5;
     s7 \<leftarrow> lit ''+'' s6;
     (m1, s8) \<leftarrow> many1 isDigit s7;
     let (m2, s9) = optCount s8;
     (w3, s10) \<leftarrow> many1 isWhiteSpace s9;
     s11 \<leftarrow> lit ''@@'' s10;
     Some (m1, m2)
   }"

text \<open>\<^verbatim>\<open>parseInt(m, 10)\<close> on a string of decimal digits, which is all the
  regular expression lets through (beyond \<open>2^53\<close> JavaScript rounds; not modelled).\<close>

definition parseInt :: "string \<Rightarrow> int" where
  "parseInt ds = foldl (\<lambda>a c. 10 * a + (int (of_char c) - 48)) 0 ds"

text \<open>\<^verbatim>\<open>m[2] ? parseInt(m[2], 10) : 1\<close>: group 2 is a non-empty string when it
  took part in the match, and undefined otherwise.\<close>

definition extractNewRange :: "string \<Rightarrow> Range option" where
  "extractNewRange content =
     (case CHUNK_HEADER content of
        None \<Rightarrow> None
      | Some (m1, m2) \<Rightarrow>
          (let start = parseInt m1;
               count = (case m2 of Some d \<Rightarrow> parseInt d | None \<Rightarrow> 1)
           in if count \<le> 0 then None else Some \<lparr>start = start, end = start + count - 1\<rparr>))"

text \<open>What the diff parser hands over: per file the new path and its chunks, per chunk
  the header line and, when the parser filled them in, the start and length on the new
  side. A field that is undefined or null is \<open>None\<close>.\<close>

record ParsedChunk =
  content :: "string option"
  newStart :: "int option"
  newLines :: "int option"

record ParsedFile =
  "to" :: "string option"
  path :: "string option"
  chunks :: "ParsedChunk list option"

text \<open>The body of the inner loop of \<^verbatim>\<open>lineRangesFromParsed\<close>: the range one
  chunk contributes, if any.\<close>

definition chunkRange :: "ParsedChunk \<Rightarrow> Range option" where
  "chunkRange chunk =
     (if newStart chunk \<noteq> None \<and> newLines chunk \<noteq> None \<and> the (newLines chunk) > 0
      then Some \<lparr>start = the (newStart chunk),
                 end = the (newStart chunk) + the (newLines chunk) - 1\<rparr>
      else (case content chunk of
              Some c \<Rightarrow> extractNewRange c
            | None \<Rightarrow> None))"

fun chunkRanges :: "ParsedChunk list \<Rightarrow> Range list \<Rightarrow> Range list" where
  "chunkRanges [] ranges = ranges"
| "chunkRanges (chunk # cs) ranges =
     (case chunkRange chunk of
        Some range' \<Rightarrow> chunkRanges cs (ranges @ [range'])
      | None \<Rightarrow> chunkRanges cs ranges)"

type_synonym LineRangesByFile = "(string \<times> Range list) list"

text \<open>
  The object \<^verbatim>\<open>result\<close> is an association list in insertion order;
  \<^const>\<open>AList.update\<close> overwrites in place or appends, as assignment to a property
  does. (JavaScript enumerates a key that is a decimal number before the others; no
  statement below depends on the order of the files.) \<open>normalizePath\<close> stands for
  \<^verbatim>\<open>path.normalize\<close> of the platform followed by the replacement of
  every backslash by a slash.
\<close>

fun lineRangesFromParsed_loop ::
  "(string \<Rightarrow> string) \<Rightarrow> ParsedFile list \<Rightarrow> LineRangesByFile \<Rightarrow> LineRangesByFile" where
  "lineRangesFromParsed_loop normalizePath [] result = result"
| "lineRangesFromParsed_loop normalizePath (f # fs) result =
     (let filePath = (case to f of Some t \<Rightarrow> t
                      | None \<Rightarrow> (case path f of Some p \<Rightarrow> p | None \<Rightarrow> []))
      in if filePath = [] then lineRangesFromParsed_loop normalizePath fs result
         else (let ranges = chunkRanges (case chunks f of Some cs \<Rightarrow> cs | None \<Rightarrow> []) []
               in if length ranges > 0
                  then lineRangesFromParsed_loop normalizePath fs
                         (AList.update (normalizePath filePath) (mergeAdjacentRanges ranges) result)
                  else lineRangesFromParsed_loop normalizePath fs result))"

definition lineRangesFromParsed :: "(string \<Rightarrow> string) \<Rightarrow> ParsedFile list \<Rightarrow> LineRangesByFile" where
  "lineRangesFromParsed normalizePath files = lineRangesFromParsed_loop normalizePath files []"

text \<open>The literal header \<^verbatim>\<open>@@ -a[,b] +c[,d] @@\<close> as git prints it, from its
  four numbers written as digit strings.\<close>

definition digits :: "string \<Rightarrow> bool" where
  "digits s = (s \<noteq> [] \<and> list_all isDigit s)"

definition hunkHeader :: "string \<Rightarrow> string option \<Rightarrow> string \<Rightarrow> string option \<Rightarrow> string" where
  "hunkHeader a b c d =
     ''@@ -'' @ a @ (case b of None \<Rightarrow> [] | Some b' \<Rightarrow> '','' @ b') @
     '' +'' @ c @ (case d of None \<Rightarrow> [] | Some d' \<Rightarrow> '','' @ d') @ '' @@''"

subsection \<open>Turns and pairs (\<^verbatim>\<open>cursor/types.ts\<close>, \<^verbatim>\<open>bubblePairDetector.ts\<close>)\<close>

text \<open>A turn (``bubble''). The optional fields of \<^verbatim>\<open>Bubble\<close> that the detector never
  reads (model, tokens, selections, links) live in the extension slot of the record: the
  functions below accept any \<open>'a Bubble_scheme\<close>, as the TypeScript functions accept
  any object with these fields.\<close>

datatype BubbleType = User | Assistant

record Bubble =
  bubbleId :: string
  composerId :: string
  "type" :: BubbleType
  "text" :: string
  createdAt :: int

record 'a UserAssistantPair =
  userBubble :: "'a Bubble_scheme"
  assistantBubbles :: "'a Bubble_scheme list"

text \<open>\<^verbatim>\<open>b.text.trim()\<close>.\<close>

definition trim :: "string \<Rightarrow> string" where
  "trim s = rev (dropWhile isWhiteSpace (rev (dropWhile isWhiteSpace s)))"

text \<open>
  \<^verbatim>\<open>pairBubbles\<close>: one pass over the turns with the variables
  \<^verbatim>\<open>pairs\<close>, \<^verbatim>\<open>currentUser\<close> and \<^verbatim>\<open>currentAssistants\<close>.
  \<open>filteredAssistants\<close> is the filter applied when a pair is closed and
  \<open>closePair\<close> the conditional push; both occur twice in the source, inside the loop
  and after it.
\<close>

definition filteredAssistants :: "'a Bubble_scheme \<Rightarrow> 'a Bubble_scheme list \<Rightarrow> 'a Bubble_scheme list" where
  "filteredAssistants prevUser currentAssistants =
     filter (\<lambda>b. length (trim (text b)) > 0 \<and> composerId b = composerId prevUser) currentAssistants"

definition closePair :: "'a Bubble_scheme \<Rightarrow> 'a Bubble_scheme list \<Rightarrow> 'a UserAssistantPair list \<Rightarrow> 'a UserAssistantPair list" where
  "closePair prevUser currentAssistants pairs =
     (if length (filteredAssistants prevUser currentAssistants) > 0
      then pairs @ [\<lparr>userBubble = prevUser,
                     assistantBubbles = filteredAssistants prevUser currentAssistants\<rparr>]
      else pairs)"

fun pairBubbles_loop ::
  "'a Bubble_scheme list \<Rightarrow> 'a UserAssistantPair list \<Rightarrow> 'a Bubble_scheme option \<Rightarrow> 'a Bubble_scheme list
   \<Rightarrow> 'a UserAssistantPair list \<times> 'a Bubble_scheme option \<times> 'a Bubble_scheme list" where
  "pairBubbles_loop [] pairs currentUser currentAssistants = (pairs, currentUser, currentAssistants)"
| "pairBubbles_loop (bubble # bubbles) pairs currentUser currentAssistants =
     (if type bubble = User
      then pairBubbles_loop bubbles
             (case currentUser of
                Some prevUser \<Rightarrow> closePair prevUser currentAssistants pairs
              | None \<Rightarrow> pairs)
             (Some bubble) []
      else if type bubble = Assistant \<and> currentUser \<noteq> None
      then pairBubbles_loop bubbles pairs currentUser (currentAssistants @ [bubble])
      else pairBubbles_loop bubbles pairs currentUser currentAssistants)"

definition pairBubbles :: "'a Bubble_scheme list \<Rightarrow> 'a UserAssistantPair list" where
  "pairBubbles bubbles =
     (case pairBubbles_loop bubbles [] None [] of
        (pairs, currentUser, currentAssistants) \<Rightarrow>
          (case currentUser of
             Some lastUser \<Rightarrow> closePair lastUser currentAssistants pairs
           | None \<Rightarrow> pairs))"

text \<open>A thrown exception, with its message.\<close>

datatype error = Error string

text \<open>The completion filter. \<open>now\<close> is the value of \<^verbatim>\<open>Date.now()\<close>.\<close>

definition COMPLETION_WAIT_MS :: int where
  "COMPLETION_WAIT_MS = 30000"

definition isPairComplete :: "int \<Rightarrow> 'a UserAssistantPair \<Rightarrow> bool \<Rightarrow> bool" where
  "isPairComplete now pair isLastPair =
     (if length (assistantBubbles pair) = 0 then False
      else if \<not> isLastPair then True
      else (let lastAssistant = assistantBubbles pair ! (length (assistantBubbles pair) - 1);
                timeSinceLastResponse = now - createdAt lastAssistant
            in timeSinceLastResponse \<ge> COMPLETION_WAIT_MS))"

text \<open>
  The \<^verbatim>\<open>for (let i = 0; i < pairs.length; i++)\<close> loop of
  \<^verbatim>\<open>filterCompletedPairs\<close>. When the last pair is not complete, the loop reads
  \<^verbatim>\<open>lastAssistant.createdAt\<close> for its log line; for a pair without assistant turns
  \<^verbatim>\<open>lastAssistant\<close> is undefined and the read throws a \<^verbatim>\<open>TypeError\<close>, which
  leaves the function. The parameter \<^verbatim>\<open>allBubbles\<close> is unused in the source too.
\<close>

function filterCompletedPairs_loop ::
  "int \<Rightarrow> 'a UserAssistantPair list \<Rightarrow> nat \<Rightarrow> 'a UserAssistantPair list
   \<Rightarrow> error + 'a UserAssistantPair list" where
  "filterCompletedPairs_loop now pairs i completedPairs =
     (if i < length pairs
      then (let isLastPair = (i = length pairs - 1);
                isComplete = isPairComplete now (pairs ! i) isLastPair
            in if isLastPair \<and> \<not> isComplete \<and> length (assistantBubbles (pairs ! i)) = 0
               then Inl (Error ''TypeError'')
               else filterCompletedPairs_loop now pairs (i + 1)
                      (if isComplete then completedPairs @ [pairs ! i] else completedPairs))
      else Inr completedPairs)"
  by pat_completeness auto

termination
  by (relation "measure (\<lambda>(now, pairs, i, completedPairs). length pairs - i)") auto

declare filterCompletedPairs_loop.simps [simp del]

definition filterCompletedPairs ::
  "int \<Rightarrow> 'a UserAssistantPair list \<Rightarrow> 'a Bubble_scheme list \<Rightarrow> error + 'a UserAssistantPair list" where
  "filterCompletedPairs now pairs allBubbles =
     (if length pairs = 0 then Inr [] else filterCompletedPairs_loop now pairs 0 [])"

text \<open>
  For the proofs: the pairs that the loop still produces from a state with a current
  user turn (\<open>pairsFrom\<close>) or without one (\<open>pairsStart\<close>), the step after the
  loop (\<open>finishPairs\<close>), and the list the completion filter returns when it does not
  throw (\<open>completedPairsOf\<close>).
\<close>

fun pairsFrom :: "'a Bubble_scheme \<Rightarrow> 'a Bubble_scheme list \<Rightarrow> 'a Bubble_scheme list \<Rightarrow> 'a UserAssistantPair list" where
  "pairsFrom u acc [] = closePair u acc []"
| "pairsFrom u acc (b # bs) =
     (if type b = User then closePair u acc [] @ pairsFrom b [] bs
      else pairsFrom u (acc @ [b]) bs)"

fun pairsStart :: "'a Bubble_scheme list \<Rightarrow> 'a UserAssistantPair list" where
  "pairsStart [] = []"
| "pairsStart (b # bs) = (if type b = User then pairsFrom b [] bs else pairsStart bs)"

definition finishPairs ::
  "'a UserAssistantPair list \<times> 'a Bubble_scheme option \<times> 'a Bubble_scheme list \<Rightarrow> 'a UserAssistantPair list" where
  "finishPairs st = (case st of (pairs, currentUser, currentAssistants) \<Rightarrow>
      (case currentUser of Some lastUser \<Rightarrow> closePair lastUser currentAssistants pairs | None \<Rightarrow> pairs))"

definition completedPairsOf :: "int \<Rightarrow> 'a UserAssistantPair list \<Rightarrow> 'a UserAssistantPair list" where
  "completedPairsOf now pairs =
     filter (\<lambda>q. isPairComplete now q False) (butlast pairs)
     @ (if pairs \<noteq> [] \<and> isPairComplete now (last pairs) True then [last pairs] else [])"

text \<open>
  To speak about positions, the turns are numbered: \<open>numbered bs\<close> is \<open>bs\<close> with
  the index of each turn stored in the extension slot (\<open>pos\<close>), a field that
  \<^const>\<open>pairBubbles\<close> does not read. \<open>pairIndices bs\<close> is the result of the
  source function on the numbered turns, read back as indices: for each pair the index
  of its user turn and the indices of its assistant turns.
  \<open>nearestUser bs j i\<close>: turn \<open>i\<close> is an assistant turn, turn \<open>j\<close> a user turn
  before it, and no user turn lies between them.
\<close>

abbreviation pos :: "nat Bubble_scheme \<Rightarrow> nat" where
  "pos \<equiv> Bubble.more"

definition numbered :: "Bubble list \<Rightarrow> nat Bubble_scheme list" where
  "numbered bs = map (\<lambda>i. Bubble.extend (bs ! i) i) [0..<length bs]"

definition pairIndices :: "Bubble list \<Rightarrow> (nat \<times> nat list) list" where
  "pairIndices bs =
     map (\<lambda>p. (pos (userBubble p), map pos (assistantBubbles p))) (pairBubbles (numbered bs))"

definition nearestUser :: "Bubble list \<Rightarrow> nat \<Rightarrow> nat \<Rightarrow> bool" where
  "nearestUser bs j i =
     (j < i \<and> i < length bs \<and> type (bs ! j) = User \<and> type (bs ! i) = Assistant
      \<and> (\<forall>m. j < m \<and> m < i \<longrightarrow> type (bs ! m) \<noteq> User))"

text \<open>Proof vocabulary: a map over the turns of a pair, the invariant of one assistant turn
  in one pair, and the maps that leave alone the fields the pairing reads.\<close>

definition mapPair :: "('a Bubble_scheme \<Rightarrow> 'b Bubble_scheme) \<Rightarrow> 'a UserAssistantPair \<Rightarrow> 'b UserAssistantPair" where
  "mapPair f p = \<lparr>userBubble = f (userBubble p), assistantBubbles = map f (assistantBubbles p)\<rparr>"

definition good :: "nat Bubble_scheme list \<Rightarrow> nat UserAssistantPair \<Rightarrow> nat Bubble_scheme \<Rightarrow> bool" where
  "good xs p a =
     (type (userBubble p) = User \<and> type a = Assistant
      \<and> composerId a = composerId (userBubble p)
      \<and> pos (userBubble p) < pos a
      \<and> (\<forall>x\<in>set xs. pos (userBubble p) < pos x \<and> pos x < pos a \<longrightarrow> type x \<noteq> User))"

definition keeps :: "('a Bubble_scheme \<Rightarrow> 'b Bubble_scheme) \<Rightarrow> bool" where
  "keeps f = (\<forall>b. type (f b) = type b \<and> text (f b) = text b \<and> composerId (f b) = composerId b)"

subsection \<open>The poll cycle (\<^verbatim>\<open>BubblePairDetector.checkForNewPairs\<close>)\<close>

text \<open>
  The fields of the detector that the cycle reads and writes, the calls it makes to its
  collaborators (in order), and what the collaborators answer during one cycle:
  the active conversation id (the promise may reject; the id may be null or empty), the
  turns of a conversation (\<^verbatim>\<open>initialize\<close>, \<^verbatim>\<open>getBubblesForComposer\<close> and
  \<^verbatim>\<open>close\<close> taken together; any of them may throw), the clock, and the callback
  \<^verbatim>\<open>onNewPair\<close>, if one is registered, with its outcome for each pair (\<open>None\<close>:
  it ran to completion; \<open>Some e\<close>: it threw or its promise rejected).
  The field \<^verbatim>\<open>cache\<close> is a JavaScript Map from pair ids to \<^verbatim>\<open>true\<close>:
  \<^verbatim>\<open>cache.has(k)\<close> is \<open>k \<in> dom cache\<close>.
\<close>

type_synonym Pair = "unit UserAssistantPair"

abbreviation pairId :: "Pair \<Rightarrow> string" where
  "pairId p \<equiv> bubbleId (userBubble p)"

record DetectorState =
  cache :: "string \<rightharpoonup> bool"
  isProcessing :: bool
  pollTickCount :: nat

datatype Call = GetActiveComposer | GetBubblesForComposer string | OnNewPair Pair

record PollEnv =
  activeComposer :: "error + string option"
  bubblesForComposer :: "string \<Rightarrow> error + Bubble list"
  dateNow :: int
  onNewPair :: "(Pair \<Rightarrow> error option) option"

record CycleResult =
  after :: DetectorState
  calls :: "Call list"
  caught :: "error option"

text \<open>
  The loop \<^verbatim>\<open>for (const pair of newPairs)\<close>: the callback is awaited, and only
  then the id is put into the cache; an exception of the callback leaves the loop (and
  the \<^verbatim>\<open>try\<close> block). The result is the cache, the calls made and the exception,
  if any.
\<close>

fun emitNewPairs ::
  "(Pair \<Rightarrow> error option) option \<Rightarrow> (string \<rightharpoonup> bool) \<Rightarrow> Pair list
   \<Rightarrow> (string \<rightharpoonup> bool) \<times> Call list \<times> error option" where
  "emitNewPairs cb c [] = (c, [], None)"
| "emitNewPairs cb c (pair # newPairs) =
     (case cb of
        None \<Rightarrow> emitNewPairs cb (c(bubbleId (userBubble pair) \<mapsto> True)) newPairs
      | Some handler \<Rightarrow>
          (case handler pair of
             Some e \<Rightarrow> (c, [OnNewPair pair], Some e)
           | None \<Rightarrow>
               (case emitNewPairs cb (c(bubbleId (userBubble pair) \<mapsto> True)) newPairs of
                  (c', cs, r) \<Rightarrow> (c', OnNewPair pair # cs, r))))"

text \<open>The \<^verbatim>\<open>try\<close> block of \<^verbatim>\<open>checkForNewPairs\<close>, with its early returns; an
  exception of the completion filter leaves it like any other.\<close>

definition tryBlock ::
  "PollEnv \<Rightarrow> DetectorState \<Rightarrow> (string \<rightharpoonup> bool) \<times> Call list \<times> error option" where
  "tryBlock env st =
     (case activeComposer env of
        Inl e \<Rightarrow> (cache st, [GetActiveComposer], Some e)
      | Inr None \<Rightarrow> (cache st, [GetActiveComposer], None)
      | Inr (Some composer) \<Rightarrow>
          if composer = [] then (cache st, [GetActiveComposer], None)
          else
            (case bubblesForComposer env composer of
               Inl e \<Rightarrow> (cache st, [GetActiveComposer, GetBubblesForComposer composer], Some e)
             | Inr fetched \<Rightarrow>
                 if length fetched = 0
                 then (cache st, [GetActiveComposer, GetBubblesForComposer composer], None)
                 else
                   (let allBubbles = sort_key createdAt fetched;
                        pairs = pairBubbles allBubbles
                    in case filterCompletedPairs (dateNow env) pairs allBubbles of
                         Inl e \<Rightarrow> (cache st, [GetActiveComposer, GetBubblesForComposer composer], Some e)
                       | Inr completedPairs \<Rightarrow>
                           (let newPairs =
                                  filter (\<lambda>p. bubbleId (userBubble p) \<notin> dom (cache st)) completedPairs
                            in if length newPairs = 0
                               then (cache st, [GetActiveComposer, GetBubblesForComposer composer], None)
                               else (case emitNewPairs (onNewPair env) (cache st) newPairs of
                                       (c', cs, r) \<Rightarrow>
                                         (c', [GetActiveComposer, GetBubblesForComposer composer] @ cs,
                                          r))))))"

text \<open>The value of \<^verbatim>\<open>newPairs\<close> in the \<^verbatim>\<open>try\<close> block, named for the proofs.\<close>

definition newPairsOf :: "PollEnv \<Rightarrow> DetectorState \<Rightarrow> Bubble list \<Rightarrow> Pair list" where
  "newPairsOf env st fetched =
     filter (\<lambda>p. pairId p \<notin> dom (cache st))
       (completedPairsOf (dateNow env) (pairBubbles (sort_key createdAt fetched)))"

text \<open>
  \<^verbatim>\<open>checkForNewPairs\<close> is an async function: it runs without interruption up to its
  first \<^verbatim>\<open>await\<close>, that is through the tick counter, the guard and the setting of
  the flag (\<open>checkForNewPairs_enter\<close>; its first component tells whether the guard let
  the call through). The rest (\<open>checkForNewPairs_body\<close>) is the \<^verbatim>\<open>try\<close> block with
  \<^verbatim>\<open>catch\<close>, which swallows the exception, and \<^verbatim>\<open>finally\<close>, which clears the
  flag. Another tick can run only while the body waits; it sees the flag set, changes
  nothing but the tick counter, which the body reads for logging only, so a whole cycle
  is \<open>checkForNewPairs\<close>.
\<close>

definition checkForNewPairs_enter :: "DetectorState \<Rightarrow> bool \<times> DetectorState" where
  "checkForNewPairs_enter st =
     (let st1 = st\<lparr>pollTickCount := pollTickCount st + 1\<rparr>
      in if isProcessing st1 then (False, st1) else (True, st1\<lparr>isProcessing := True\<rparr>))"

definition checkForNewPairs_body :: "PollEnv \<Rightarrow> DetectorState \<Rightarrow> CycleResult" where
  "checkForNewPairs_body env st =
     (case tryBlock env st of
        (c', cs, r) \<Rightarrow> \<lparr>after = st\<lparr>cache := c', isProcessing := False\<rparr>, calls = cs, caught = r\<rparr>)"

definition checkForNewPairs :: "PollEnv \<Rightarrow> DetectorState \<Rightarrow> CycleResult" where
  "checkForNewPairs env st =
     (case checkForNewPairs_enter st of
        (False, st1) \<Rightarrow> \<lparr>after = st1, calls = [], caught = None\<rparr>
      | (True, st2) \<Rightarrow> checkForNewPairs_body env st2)"

text \<open>The public \<^verbatim>\<open>resetCache\<close>, the detector as constructed, a run of complete
  cycles with the calls of all of them, and the pair ids handed to the callback.\<close>

definition resetCache :: "DetectorState \<Rightarrow> DetectorState" where
  "resetCache st = st\<lparr>cache := Map.empty\<rparr>"

definition newDetector :: DetectorState where
  "newDetector = \<lparr>cache = Map.empty, isProcessing = False, pollTickCount = 0\<rparr>"

fun runCycles :: "PollEnv list \<Rightarrow> DetectorState \<Rightarrow> DetectorState \<times> Call list" where
  "runCycles [] st = (st, [])"
| "runCycles (env # envs) st =
     (case runCycles envs (after (checkForNewPairs env st)) of
        (st', cs) \<Rightarrow> (st', calls (checkForNewPairs env st) @ cs))"

fun emittedIds :: "Call list \<Rightarrow> string list" where
  "emittedIds [] = []"
| "emittedIds (OnNewPair p # cs) = bubbleId (userBubble p) # emittedIds cs"
| "emittedIds (c # cs) = emittedIds cs"

text \<open>
  The scheduler: \<open>inFlight st n\<close> says that the detector can be in state \<open>st\<close> with
  \<open>n\<close> invocations of \<^verbatim>\<open>checkForNewPairs\<close> past the guard and not yet through
  \<^verbatim>\<open>finally\<close>. A timer tick enters, a waiting invocation finishes, the user resets
  the cache. The flag is written by the guard and by \<^verbatim>\<open>finally\<close> only, so for the
  flag and the count it does not matter at which \<^verbatim>\<open>await\<close> of a waiting body
  another tick or a reset comes in; the relation orders them before the effect of that
  body.
\<close>

inductive inFlight :: "DetectorState \<Rightarrow> nat \<Rightarrow> bool" where
  start: "inFlight newDetector 0"
| tick: "inFlight st n \<Longrightarrow> checkForNewPairs_enter st = (go, st') \<Longrightarrow>
         inFlight st' (if go then Suc n else n)"
| finish: "inFlight st (Suc n) \<Longrightarrow> inFlight (after (checkForNewPairs_body env st)) n"
| reset: "inFlight st n \<Longrightarrow> inFlight (resetCache st) n"

subsection \<open>The diff resolver (\<^verbatim>\<open>gitDiff.ts\<close>, \<^verbatim>\<open>getDiffLineRanges\<close>)\<close>

text \<open>
  What \<^verbatim>\<open>getDiffLineRanges\<close> gets from outside: \<^verbatim>\<open>simpleGit(workspaceRoot)\<close>,
  which may throw; \<^verbatim>\<open>git diff --no-color -U0\<close>, restricted to paths or not, which
  prints a diff or fails; the diff parser; and the path normalisation.
  \<^verbatim>\<open>runDiff\<close> catches the failure of \<^verbatim>\<open>git diff\<close> and returns the empty string
  for it. The resolver tries the restricted diff when it is given paths, then the
  unrestricted one when the first is blank, and returns the empty object when that is
  blank too; only then does it parse. The constant carries a suffix because
  \<open>getDiffLineRanges\<close> is the name of the parameter that stands for the resolver in the
  functions that call it.
\<close>

record DiffEnv =
  simpleGit :: "error option"
  gitDiff :: "string list option \<Rightarrow> error + string"
  parseDiff :: "string \<Rightarrow> error + ParsedFile list"
  pathNormalize :: "string \<Rightarrow> string"

definition runDiff :: "DiffEnv \<Rightarrow> string list option \<Rightarrow> string" where
  "runDiff env paths =
     (case gitDiff env (case paths of
                          Some ps \<Rightarrow> if length ps > 0 then Some ps else None
                        | None \<Rightarrow> None) of
        Inr diff \<Rightarrow> diff
      | Inl e \<Rightarrow> [])"

definition getDiffLineRanges_fn :: "DiffEnv \<Rightarrow> string list option \<Rightarrow> error + LineRangesByFile" where
  "getDiffLineRanges_fn env filePaths =
     (case simpleGit env of
        Some e \<Rightarrow> Inl e
      | None \<Rightarrow>
          (let diff0 = (case filePaths of
                          Some ps \<Rightarrow> if length ps > 0 then runDiff env (Some ps) else []
                        | None \<Rightarrow> []);
               diff = (if diff0 = [] \<or> trim diff0 = [] then runDiff env None else diff0)
           in if diff = [] \<or> trim diff = [] then Inr []
              else (case parseDiff env diff of
                      Inl e \<Rightarrow> Inl e
                    | Inr parsed \<Rightarrow> Inr (lineRangesFromParsed (pathNormalize env) parsed))))"

subsection \<open>Changed files (\<^verbatim>\<open>pairEnricher.ts\<close>, \<^verbatim>\<open>aiContextPipeline.ts\<close>)\<close>

text \<open>
  \<^verbatim>\<open>enrichPairWithFiles\<close>, as far as the changed files and the time window go (the
  model name, token counts, selections and links it also collects do not touch them).
  \<open>getFilePathsBetween\<close> is the change log and \<open>getDiffLineRanges\<close> the diff
  resolver called with the candidate paths (\<open>Some paths\<close>) or without (\<open>None\<close>):
  \<open>Inr\<close> the ranges per file, \<open>Inl\<close> an exception. The range \<open>[1,1]\<close> for every
  candidate is in the \<^verbatim>\<open>catch\<close> branch only. A pair without assistant turns makes
  \<^verbatim>\<open>lastAssistant.createdAt\<close> throw.
\<close>

record ChangedFile =
  filePath :: string
  lineRanges :: "Range list"

definition lineRangesByFileToFilesArray :: "LineRangesByFile \<Rightarrow> ChangedFile list" where
  "lineRangesByFileToFilesArray lineRangesByFile =
     map (\<lambda>(p, rs). \<lparr>filePath = p, lineRanges = rs\<rparr>) lineRangesByFile"

record EnrichedUserAssistantPair = "unit UserAssistantPair" +
  changedFiles :: "ChangedFile list"
  startTime :: int
  endTime :: int
  duration :: int

definition enrichPairWithFiles ::
  "(int \<Rightarrow> int \<Rightarrow> string list) \<Rightarrow> (string list option \<Rightarrow> error + LineRangesByFile) \<Rightarrow> Pair
   \<Rightarrow> error + EnrichedUserAssistantPair" where
  "enrichPairWithFiles getFilePathsBetween getDiffLineRanges pair =
     (if assistantBubbles pair = [] then Inl (Error ''TypeError'')
      else
        (let startTime = createdAt (userBubble pair);
             lastAssistant = assistantBubbles pair ! (length (assistantBubbles pair) - 1);
             endTime = createdAt lastAssistant + 60000;
             candidateFiles = getFilePathsBetween startTime endTime;
             changedFiles =
               (if length candidateFiles > 0
                then (case getDiffLineRanges (Some candidateFiles) of
                        Inr lineRangesByFile \<Rightarrow> lineRangesByFileToFilesArray lineRangesByFile
                      | Inl e \<Rightarrow>
                          map (\<lambda>p. \<lparr>filePath = p, lineRanges = [\<lparr>start = 1, end = 1\<rparr>]\<rparr>) candidateFiles)
                else [])
         in Inr \<lparr>userBubble = userBubble pair, assistantBubbles = assistantBubbles pair,
                  changedFiles = changedFiles, startTime = startTime, endTime = endTime,
                  duration = endTime - startTime\<rparr>))"

text \<open>
  \<^verbatim>\<open>runAiContextPipeline\<close>, lines 49 to 70: the ranges from the diff restricted to
  the tracked paths, else from the unrestricted diff, else the loop that gives every
  tracked path the range \<open>[1,1]\<close> (\<open>wholeFileRanges\<close>), which skips an empty path and
  a path under \<^verbatim>\<open>.ai-context/\<close>. An exception of the diff resolver is not caught
  here.
\<close>

fun wholeFileRanges :: "string list \<Rightarrow> LineRangesByFile \<Rightarrow> LineRangesByFile" where
  "wholeFileRanges [] lineRangesByFile = lineRangesByFile"
| "wholeFileRanges (p # trackerPaths) lineRangesByFile =
     (if p = [] \<or> prefix ''.ai-context/'' p
      then wholeFileRanges trackerPaths lineRangesByFile
      else wholeFileRanges trackerPaths
             (AList.update p [\<lparr>start = 1, end = 1\<rparr>] lineRangesByFile))"

definition runAiContextPipeline_ranges ::
  "string list \<Rightarrow> (string list option \<Rightarrow> error + LineRangesByFile) \<Rightarrow> error + LineRangesByFile" where
  "runAiContextPipeline_ranges trackerPaths getDiffLineRanges =
     (case (if length trackerPaths > 0 then getDiffLineRanges (Some trackerPaths) else Inr []) of
        Inl e \<Rightarrow> Inl e
      | Inr first \<Rightarrow>
          (case (if length (map fst first) = 0 then getDiffLineRanges None else Inr first) of
             Inl e \<Rightarrow> Inl e
           | Inr lineRangesByFile \<Rightarrow>
               if length (map fst lineRangesByFile) = 0 \<and> length trackerPaths > 0
               then Inr (wholeFileRanges trackerPaths [])
               else Inr lineRangesByFile))"

subsection \<open>The branch snapshotter (\<^verbatim>\<open>gitCommit.ts\<close>)\<close>

text \<open>
  Git is outside the repository. \<open>GitState\<close> holds what a run reads and changes: where
  \<^verbatim>\<open>HEAD\<close> points (a branch, or a commit when it is detached), the paths in the
  index, the files of the working tree that are not in the index, the module variable
  \<^verbatim>\<open>savedBranchBeforeAiContext\<close>, and the git commands issued so far.
  \<open>GitAnswers\<close> holds what the model does not compute: the name
  \<^verbatim>\<open>getAiContextBranchName\<close> returns (it never throws), the list of local branches,
  the paths each branch tracks at its tip (\<open>treeOf\<close>), the outcome of staging and
  committing, the second entry of \<^verbatim>\<open>git log\<close>, whether the notification callback
  throws, and for each command whether it fails for a reason outside the model (a lock,
  local changes in the way, a branch that does not exist).

  \<^verbatim>\<open>git rev-parse --abbrev-ref HEAD\<close> prints the branch name, or \<^verbatim>\<open>HEAD\<close> when
  \<^verbatim>\<open>HEAD\<close> is detached. \<^verbatim>\<open>git checkout HEAD\<close> succeeds and moves nothing. A
  checkout of a branch is refused when the branch tracks a path that is an untracked
  file of the working tree; otherwise it moves \<^verbatim>\<open>HEAD\<close> to the branch and makes the
  index the tree of the branch. \<^verbatim>\<open>git checkout --orphan\<close> moves \<^verbatim>\<open>HEAD\<close> to the
  new branch and keeps the index; \<^verbatim>\<open>git rm -rf --cached .\<close> empties the index and
  leaves the files in the working tree, untracked. A command that fails changes
  nothing.
\<close>

datatype Head = OnBranch string | Detached string

datatype GitCommand =
  RevParseHead | BranchLocal | Checkout string | CheckoutOrphan string | RmCached
  | AddAndCommit "string list" | Log

record GitState =
  headRef :: Head
  indexPaths :: "string list"
  untrackedPaths :: "string list"
  savedBranchBeforeAiContext :: "string option"
  issued :: "GitCommand list"

record GitAnswers =
  aiContextBranchName :: string
  revparseFails :: bool
  branchLocal :: "error + string list"
  treeOf :: "string \<Rightarrow> string list"
  checkoutAiContextFails :: bool
  checkoutOrphanFails :: bool
  rmCachedFails :: bool
  firstCreatedCallbackFails :: bool
  insideWorkspace :: "string \<Rightarrow> bool"
  addFails :: bool
  commitOutcome :: "string option"
  restoreCheckoutFails :: bool
  parentOfCommit :: "string option"

definition revparseAbbrevRefHead :: "GitState \<Rightarrow> string" where
  "revparseAbbrevRefHead g = (case headRef g of OnBranch b \<Rightarrow> b | Detached c \<Rightarrow> ''HEAD'')"

definition gitCheckout :: "GitAnswers \<Rightarrow> bool \<Rightarrow> string \<Rightarrow> GitState \<Rightarrow> GitState \<times> bool" where
  "gitCheckout git fails target g =
     (let g1 = g\<lparr>issued := issued g @ [Checkout target]\<rparr>
      in if fails then (g1, False)
         else if target = ''HEAD'' then (g1, True)
         else if \<exists>p\<in>set (treeOf git target). p \<in> set (untrackedPaths g) then (g1, False)
         else (g1\<lparr>headRef := OnBranch target, indexPaths := treeOf git target\<rparr>, True))"

text \<open>\<^verbatim>\<open>ensureAiContextBranch\<close>. The branch to return to is recorded once
  \<^verbatim>\<open>rev-parse\<close> has answered; a failure of \<^verbatim>\<open>rm --cached\<close> is caught and
  ignored in the source.\<close>

definition ensureAiContextBranch ::
  "GitAnswers \<Rightarrow> GitState \<Rightarrow> GitState \<times> (error + string \<times> bool)" where
  "ensureAiContextBranch git g =
     (let branchName = aiContextBranchName git;
          g1 = g\<lparr>issued := issued g @ [RevParseHead]\<rparr>
      in if revparseFails git then (g1, Inl (Error ''rev-parse''))
         else
           (let g2 = g1\<lparr>savedBranchBeforeAiContext := Some (revparseAbbrevRefHead g1),
                         issued := issued g1 @ [BranchLocal]\<rparr>
            in case branchLocal git of
                 Inl e \<Rightarrow> (g2, Inl e)
               | Inr branches \<Rightarrow>
                   if branchName \<in> set branches
                   then (case gitCheckout git (checkoutAiContextFails git) branchName g2 of
                           (g3, ok) \<Rightarrow>
                             if ok then (g3, Inr (branchName, False))
                             else (g3, Inl (Error ''checkout'')))
                   else (let g3 = g2\<lparr>issued := issued g2 @ [CheckoutOrphan branchName]\<rparr>
                         in if checkoutOrphanFails git then (g3, Inl (Error ''checkout --orphan''))
                            else (let g4 = g3\<lparr>headRef := OnBranch branchName,
                                               issued := issued g3 @ [RmCached]\<rparr>;
                                      g5 = (if rmCachedFails git then g4
                                            else g4\<lparr>untrackedPaths :=
                                                      untrackedPaths g4
                                                      @ filter (\<lambda>p. p \<notin> set (untrackedPaths g4))
                                                          (indexPaths g4),
                                                    indexPaths := []\<rparr>)
                                  in (g5, Inr (branchName, True))))))"

text \<open>\<^verbatim>\<open>commitMatchedFiles\<close> catches every error of staging and committing itself
  and returns null then, as it does when nothing is staged. \<open>AddAndCommit\<close> stands for
  \<^verbatim>\<open>git add\<close>, \<^verbatim>\<open>git status\<close> and, when something is staged,
  \<^verbatim>\<open>git commit\<close>; \<open>commitOutcome\<close> is the hash or null that results once the
  paths are staged.\<close>

definition commitMatchedFiles :: "GitAnswers \<Rightarrow> string list \<Rightarrow> GitState \<Rightarrow> GitState \<times> string option" where
  "commitMatchedFiles git filePaths g =
     (if length filePaths = 0 then (g, None)
      else if length (filter (insideWorkspace git) filePaths) = 0 then (g, None)
      else (let g1 = g\<lparr>issued := issued g @ [AddAndCommit filePaths]\<rparr>
            in if addFails git then (g1, None)
               else (g1\<lparr>indexPaths :=
                          indexPaths g1 @ filter (\<lambda>p. p \<notin> set (indexPaths g1)) (remdups filePaths),
                        untrackedPaths := filter (\<lambda>p. p \<notin> set filePaths) (untrackedPaths g1)\<rparr>,
                     commitOutcome git)))"

text \<open>\<^verbatim>\<open>restoreBranch\<close>: the checkout of the recorded name, or of \<^verbatim>\<open>main\<close> when
  none is recorded; the variable is cleared in \<^verbatim>\<open>finally\<close>.\<close>

definition restoreBranch :: "GitAnswers \<Rightarrow> GitState \<Rightarrow> GitState \<times> error option" where
  "restoreBranch git g =
     (let target = (case savedBranchBeforeAiContext g of Some b \<Rightarrow> b | None \<Rightarrow> ''main'')
      in case gitCheckout git (restoreCheckoutFails git) target g of
           (g1, ok) \<Rightarrow>
             (g1\<lparr>savedBranchBeforeAiContext := None\<rparr>,
              if ok then None else Some (Error ''checkout'')))"

text \<open>The four Korean placeholder literals of \<^verbatim>\<open>aiContextPipeline.ts\<close>, as UTF-8
  bytes: ``(no file change)'', ``(no current file)'', ``(no prompt)'', ``(no response)''.\<close>

definition NO_FILE_CHANGE :: string where
  "NO_FILE_CHANGE = [CHR 0x28, CHR 0xED, CHR 0x8C, CHR 0x8C, CHR 0xEC, CHR 0x9D, CHR 0xBC, CHR 0x20,
     CHR 0xEB, CHR 0xB3, CHR 0x80, CHR 0xEA, CHR 0xB2, CHR 0xBD, CHR 0x20, CHR 0xEC, CHR 0x97, CHR 0x86,
     CHR 0xEC, CHR 0x9D, CHR 0x8C, CHR 0x29]"

definition NO_CURRENT_FILE :: string where
  "NO_CURRENT_FILE = [CHR 0x28, CHR 0xED, CHR 0x98, CHR 0x84, CHR 0xEC, CHR 0x9E, CHR 0xAC, CHR 0x20,
     CHR 0xED, CHR 0x8C, CHR 0x8C, CHR 0xEC, CHR 0x9D, CHR 0xBC, CHR 0x20, CHR 0xEC, CHR 0x97, CHR 0x86,
     CHR 0xEC, CHR 0x9D, CHR 0x8C, CHR 0x29]"

definition NO_PROMPT :: string where
  "NO_PROMPT = [CHR 0x28, CHR 0xED, CHR 0x94, CHR 0x84, CHR 0xEB, CHR 0xA1, CHR 0xAC, CHR 0xED, CHR 0x94,
     CHR 0x84, CHR 0xED, CHR 0x8A, CHR 0xB8, CHR 0x20, CHR 0xEC, CHR 0x97, CHR 0x86, CHR 0xEC, CHR 0x9D,
     CHR 0x8C, CHR 0x29]"

definition NO_RESPONSE :: string where
  "NO_RESPONSE = [CHR 0x28, CHR 0xEC, CHR 0x9D, CHR 0x91, CHR 0xEB, CHR 0x8B, CHR 0xB5, CHR 0x20, CHR 0xEC,
     CHR 0x97, CHR 0x86, CHR 0xEC, CHR 0x9D, CHR 0x8C, CHR 0x29]"

text \<open>
  Lines 172 to 194 of \<^verbatim>\<open>runAiContextPipelineForPair\<close>: the \<^verbatim>\<open>try\<close> block with
  \<^verbatim>\<open>ensureAiContextBranch\<close>, the notification callback and the commit; the
  \<^verbatim>\<open>catch\<close> that leaves the hash null; the \<^verbatim>\<open>finally\<close> with
  \<^verbatim>\<open>restoreBranch\<close>, whose own failure is caught and logged. \<open>gitFails\<close> says
  that one of the steps before the restoration fails for a reason outside the model or
  that the commit yields no hash.
\<close>

definition gitStage ::
  "GitAnswers \<Rightarrow> ChangedFile list \<Rightarrow> GitState \<Rightarrow> GitState \<times> string option" where
  "gitStage git changed g =
     (if \<exists>f\<in>set changed. filePath f \<noteq> NO_FILE_CHANGE
      then
        (let filePaths = map filePath changed;
             (g1, ensured) = ensureAiContextBranch git g;
             (g2, commitHash) =
               (case ensured of
                  Inl gitErr \<Rightarrow> (g1, None)
                | Inr (branchName, created) \<Rightarrow>
                    if created \<and> firstCreatedCallbackFails git then (g1, None)
                    else commitMatchedFiles git filePaths g1);
             (g3, restoreErr) = restoreBranch git g2
         in (g3, commitHash))
      else (g, None))"


subsection \<open>Persisting the record (\<^verbatim>\<open>aiContextPipeline.ts\<close>)\<close>

text \<open>The stored record, with the fields the statements below read (thinking text, time
  stamps, model and token fields are left out).\<close>

record AICodeMetadata =
  metaBubbleId :: string
  metaComposerId :: string
  commitHash :: "string option"
  beforeCommitHash :: "string option"
  prompt :: string
  aiResponse :: string
  filesChanged :: "string list"
  files :: "ChangedFile list"

type_synonym MetadataStore = "string \<rightharpoonup> AICodeMetadata"

text \<open>Modelled from the spec: \<^verbatim>\<open>MetadataStore.upsertMetadata\<close>
  (\<^verbatim>\<open>store/metadataStore.ts\<close> is not among the sources): ``upsert keyed by pair id:
  re-saving the same id replaces the prior record, never duplicates''.
\<close>

definition upsertMetadata :: "MetadataStore \<Rightarrow> AICodeMetadata \<Rightarrow> MetadataStore" where
  "upsertMetadata store m = store(metaBubbleId m \<mapsto> m)"

text \<open>\<^verbatim>\<open>saveEnrichedPairMetadata\<close>: nothing is stored when no effective file is left.
  With a commit hash it asks \<^verbatim>\<open>git log\<close> for the two latest commits;
  \<open>parentOfCommit\<close> is the second of them, if there is one and the command does not
  fail. The workspace root it is called with is never empty.\<close>

definition effectiveFiles :: "ChangedFile list \<Rightarrow> ChangedFile list" where
  "effectiveFiles fs =
     filter (\<lambda>f. filePath f \<noteq> [] \<and> filePath f \<noteq> NO_CURRENT_FILE \<and> filePath f \<noteq> NO_FILE_CHANGE
                \<and> \<not> prefix ''.ai-context/'' (filePath f)) fs"

fun joinWith :: "string \<Rightarrow> string list \<Rightarrow> string" where
  "joinWith sep [] = []"
| "joinWith sep [x] = x"
| "joinWith sep (x # y # ys) = x @ sep @ joinWith sep (y # ys)"

definition metadataOf ::
  "EnrichedUserAssistantPair \<Rightarrow> string option \<Rightarrow> string option \<Rightarrow> AICodeMetadata" where
  "metadataOf enrichedPair hash parent =
     (let aiResponse = joinWith [CHR 0x0A, CHR 0x0A, CHR ''-'', CHR ''-'', CHR ''-'', CHR 0x0A, CHR 0x0A]
                         (filter (\<lambda>t. length (trim t) > 0) (map text (assistantBubbles enrichedPair)))
      in \<lparr>metaBubbleId = bubbleId (userBubble enrichedPair),
          metaComposerId = composerId (userBubble enrichedPair),
          commitHash = hash,
          beforeCommitHash = (case hash of Some h \<Rightarrow> if h \<noteq> [] then parent else None | None \<Rightarrow> None),
          prompt = (if text (userBubble enrichedPair) = [] then NO_PROMPT else text (userBubble enrichedPair)),
          aiResponse = (if aiResponse = [] then NO_RESPONSE else aiResponse),
          filesChanged = map filePath (effectiveFiles (changedFiles enrichedPair)),
          files = effectiveFiles (changedFiles enrichedPair)\<rparr>)"

definition saveEnrichedPairMetadata ::
  "GitAnswers \<Rightarrow> EnrichedUserAssistantPair \<Rightarrow> string option \<Rightarrow> GitState \<times> MetadataStore
   \<Rightarrow> GitState \<times> MetadataStore" where
  "saveEnrichedPairMetadata git enrichedPair hash world =
     (case world of (g, store) \<Rightarrow>
        if length (effectiveFiles (changedFiles enrichedPair)) = 0 then (g, store)
        else ((case hash of
                 Some h \<Rightarrow> if h \<noteq> [] then g\<lparr>issued := issued g @ [Log]\<rparr> else g
               | None \<Rightarrow> g),
              upsertMetadata store (metadataOf enrichedPair hash (parentOfCommit git))))"

text \<open>
  \<^verbatim>\<open>runAiContextPipelineForPair\<close>: enrichment, the fallback to the file of the active
  editor (path and selected lines) or to the placeholder when no file changed, the git
  stage, and the save. An exception of the enrichment leaves the function.
\<close>

definition fallbackFiles :: "(string \<times> int \<times> int) option \<Rightarrow> ChangedFile list \<Rightarrow> ChangedFile list" where
  "fallbackFiles activeTextEditor changed =
     (if length changed = 0
      then (let fromEditor =
                  (case activeTextEditor of
                     Some (relativePath, selStartLine, selEndLine) \<Rightarrow>
                       if \<not> prefix ''.ai-context'' relativePath
                       then [\<lparr>filePath = relativePath,
                              lineRanges = [\<lparr>start = selStartLine + 1, end = selEndLine + 1\<rparr>]\<rparr>]
                       else []
                   | None \<Rightarrow> [])
            in if length fromEditor = 0
               then [\<lparr>filePath = NO_FILE_CHANGE, lineRanges = [\<lparr>start = 1, end = 1\<rparr>]\<rparr>]
               else fromEditor)
      else changed)"

definition runAiContextPipelineForPair ::
  "(int \<Rightarrow> int \<Rightarrow> string list) \<Rightarrow> (string list option \<Rightarrow> error + LineRangesByFile)
   \<Rightarrow> (string \<times> int \<times> int) option \<Rightarrow> GitAnswers \<Rightarrow> Pair \<Rightarrow> GitState \<times> MetadataStore
   \<Rightarrow> (GitState \<times> MetadataStore) \<times> (error + bool)" where
  "runAiContextPipelineForPair getFilePathsBetween getDiffLineRanges activeTextEditor git pair world =
     (case world of (g, store) \<Rightarrow>
        (case enrichPairWithFiles getFilePathsBetween getDiffLineRanges pair of
           Inl e \<Rightarrow> ((g, store), Inl e)
         | Inr enriched \<Rightarrow>
             (let enrichedPair = enriched\<lparr>changedFiles := fallbackFiles activeTextEditor (changedFiles enriched)\<rparr>;
                  (g', hash) = gitStage git (changedFiles enrichedPair) g
              in (saveEnrichedPairMetadata git enrichedPair hash (g', store), Inr True))))"

subsection \<open>Sample inputs\<close>

text \<open>
  Inputs for the concrete statements: a conversation with a leading assistant turn, an
  empty reply and a reply of another conversation; scenario A of the specification (a
  user turn at 0 and a reply at 5000), scenario C (two exchanges) and an exchange
  followed by a user turn that has no reply yet; a poll environment that serves
  scenario A; a detector in mid cycle; a workspace in which \<^verbatim>\<open>git diff\<close> fails and
  one in which it prints nothing; and a repository on a feature branch that tracks two
  files, with a snapshot branch that tracks one of them, in which no git command fails
  for an outside reason.
\<close>

definition sample_turns :: "Bubble list" where
  "sample_turns =
     [\<lparr>bubbleId = ''a0'', composerId = ''c1'', type = Assistant, text = ''hello'', createdAt = 0\<rparr>,
      \<lparr>bubbleId = ''u1'', composerId = ''c1'', type = User, text = ''fix bug'', createdAt = 100\<rparr>,
      \<lparr>bubbleId = ''a2'', composerId = ''c1'', type = Assistant, text = ''  '', createdAt = 200\<rparr>,
      \<lparr>bubbleId = ''a3'', composerId = ''c2'', type = Assistant, text = ''other'', createdAt = 300\<rparr>,
      \<lparr>bubbleId = ''a4'', composerId = ''c1'', type = Assistant, text = ''done'', createdAt = 400\<rparr>,
      \<lparr>bubbleId = ''u5'', composerId = ''c1'', type = User, text = ''next'', createdAt = 500\<rparr>,
      \<lparr>bubbleId = ''a6'', composerId = ''c1'', type = Assistant, text = ''ok'', createdAt = 600\<rparr>]"

definition scenarioA_turns :: "Bubble list" where
  "scenarioA_turns =
     [\<lparr>bubbleId = ''u1'', composerId = ''c1'', type = User, text = ''fix bug'', createdAt = 0\<rparr>,
      \<lparr>bubbleId = ''a1'', composerId = ''c1'', type = Assistant, text = ''done'', createdAt = 5000\<rparr>]"



definition scenarioA_pair :: Pair where
  "scenarioA_pair = \<lparr>userBubble = scenarioA_turns ! 0, assistantBubbles = [scenarioA_turns ! 1]\<rparr>"

definition scenarioA_env :: "(Pair \<Rightarrow> error option) \<Rightarrow> int \<Rightarrow> PollEnv" where
  "scenarioA_env handler t =
     \<lparr>activeComposer = Inr (Some ''c1''), bubblesForComposer = (\<lambda>composer. Inr scenarioA_turns),
      dateNow = t, onNewPair = Some handler\<rparr>"

definition busyDetector :: DetectorState where
  "busyDetector = \<lparr>cache = Map.empty, isProcessing = True, pollTickCount = 1\<rparr>"

definition scenarioA_enriched :: "ChangedFile list \<Rightarrow> EnrichedUserAssistantPair" where
  "scenarioA_enriched changed =
     \<lparr>userBubble = scenarioA_turns ! 0, assistantBubbles = [scenarioA_turns ! 1],
      changedFiles = changed, startTime = 0, endTime = 65000, duration = 65000\<rparr>"

definition brokenGit :: DiffEnv where
  "brokenGit = \<lparr>simpleGit = None, gitDiff = (\<lambda>paths. Inl (Error ''not a git repository'')),
                parseDiff = (\<lambda>d. Inr []), pathNormalize = (\<lambda>p. p)\<rparr>"

definition cleanGit :: DiffEnv where
  "cleanGit = \<lparr>simpleGit = None, gitDiff = (\<lambda>paths. Inr []),
               parseDiff = (\<lambda>d. Inr []), pathNormalize = (\<lambda>p. p)\<rparr>"

definition gitOk :: GitAnswers where
  "gitOk = \<lparr>aiContextBranchName = ''ai-context-dev'', revparseFails = False,
            branchLocal = Inr [''main'', ''feature/x'', ''ai-context-dev''],
            treeOf = (\<lambda>b. if b = ''ai-context-dev'' then [''a.py''] else [''README.md'', ''a.py'']),
            checkoutAiContextFails = False, checkoutOrphanFails = False, rmCachedFails = False,
            firstCreatedCallbackFails = False, insideWorkspace = (\<lambda>p. True), addFails = False,
            commitOutcome = Some ''abc1234'', restoreCheckoutFails = False,
            parentOfCommit = Some ''0000aaa''\<rparr>"

definition onFeature :: GitState where
  "onFeature = \<lparr>headRef = OnBranch ''feature/x'', indexPaths = [''README.md'', ''a.py''],
                untrackedPaths = [], savedBranchBeforeAiContext = None, issued = []\<rparr>"

section \<open>Properties\<close>

subsection \<open>The merge step\<close>

lemma mergeLoop_mergeFrom:
  "merged \<noteq> [] \<Longrightarrow> mergeLoop merged todo = butlast merged @ mergeFrom (last merged) todo"
proof (induction todo arbitrary: merged)
  case Nil
  then show ?case by simp
next
  case (Cons cur todo)
  show ?case
  proof (cases "start cur \<le> end (last merged) + 1")
    case True
    then show ?thesis
      using Cons.IH[of "butlast merged @ [(last merged)\<lparr>end := max (end (last merged)) (end cur)\<rparr>]"]
      by (simp add: Let_def)
  next
    case False
    then show ?thesis using Cons.IH[of "merged @ [cur]"] Cons.prems
      by (simp add: Let_def)
  qed
qed

lemma mergeAdjacentRanges_mergeFrom:
  "sort_key start ranges = s0 # todo \<Longrightarrow> 1 < length ranges \<Longrightarrow>
   mergeAdjacentRanges ranges = mergeFrom s0 todo"
  by (simp add: mergeAdjacentRanges_def mergeLoop_mergeFrom)

lemma sort_key_start_Cons:
  assumes "1 < length (rs :: Range list)"
  obtains s0 todo where "sort_key start rs = s0 # todo"
    and "sorted (map start (s0 # todo))" and "set (s0 # todo) = set rs"
proof -
  have "sort_key start rs \<noteq> []" using assms by (metis length_sort list.size(3) not_less_zero)
  then obtain s0 todo where s: "sort_key start rs = s0 # todo"
    by (cases "sort_key start rs") auto
  have "sorted (map start (s0 # todo))" using s by (metis sorted_sort_key)
  moreover have "set (s0 # todo) = set rs" using s by (metis set_sort)
  ultimately show ?thesis using s that by blast
qed

lemma mergeFrom_start_lower:
  "sorted (map start (prev # todo)) \<Longrightarrow> m \<in> set (mergeFrom prev todo) \<Longrightarrow> start prev \<le> start m"
proof (induction todo arbitrary: prev)
  case Nil
  then show ?case by simp
next
  case (Cons cur todo)
  show ?case
  proof (cases "start cur \<le> end prev + 1")
    case True
    with Cons.prems Cons.IH[of "prev\<lparr>end := max (end prev) (end cur)\<rparr>"] show ?thesis by simp
  next
    case False
    with Cons.prems Cons.IH[of cur] show ?thesis by auto
  qed
qed

lemma mergeFrom_apart:
  "sorted (map start (prev # todo)) \<Longrightarrow> sorted_wrt apart (mergeFrom prev todo)"
proof (induction todo arbitrary: prev)
  case Nil
  then show ?case by simp
next
  case (Cons cur todo)
  show ?case
  proof (cases "start cur \<le> end prev + 1")
    case True
    with Cons.prems Cons.IH[of "prev\<lparr>end := max (end prev) (end cur)\<rparr>"] show ?thesis by simp
  next
    case False
    have "\<forall>m\<in>set (mergeFrom cur todo). apart prev m"
    proof
      fix m assume "m \<in> set (mergeFrom cur todo)"
      then have "start cur \<le> start m"
        using mergeFrom_start_lower[of cur todo m] Cons.prems by simp
      with False Cons.prems show "apart prev m" by (simp add: apart_def)
    qed
    with False Cons.prems Cons.IH[of cur] show ?thesis by simp
  qed
qed

lemma mergeFrom_covers:
  "sorted (map start (prev # todo)) \<Longrightarrow> r \<in> set (prev # todo) \<Longrightarrow>
   \<exists>m\<in>set (mergeFrom prev todo). covers m r"
proof (induction todo arbitrary: prev r)
  case Nil
  then show ?case by (simp add: covers_def)
next
  case (Cons cur todo)
  show ?case
  proof (cases "start cur \<le> end prev + 1")
    case True
    let ?p = "prev\<lparr>end := max (end prev) (end cur)\<rparr>"
    have srt: "sorted (map start (?p # todo))" using Cons.prems(1) by simp
    have "\<exists>m\<in>set (mergeFrom ?p todo). covers m r"
    proof (cases "r \<in> set todo")
      case True
      then show ?thesis using Cons.IH[OF srt, of r] by simp
    next
      case False
      then have r: "r = prev \<or> r = cur" using Cons.prems(2) by auto
      obtain m where m: "m \<in> set (mergeFrom ?p todo)" "covers m ?p"
        using Cons.IH[OF srt, of ?p] by auto
      have "covers m r" using r m(2) Cons.prems(1) by (auto simp: covers_def)
      with m(1) show ?thesis by blast
    qed
    with True show ?thesis by simp
  next
    case False
    show ?thesis
    proof (cases "r = prev")
      case True
      with False show ?thesis by (auto simp: covers_def)
    next
      case nr: False
      then have "r \<in> set (cur # todo)" using Cons.prems(2) by auto
      moreover have "sorted (map start (cur # todo))" using Cons.prems(1) by simp
      ultimately obtain m where "m \<in> set (mergeFrom cur todo)" "covers m r"
        using Cons.IH[of cur r] by blast
      with False show ?thesis by auto
    qed
  qed
qed

lemma lines_merge_step:
  "start prev \<le> start cur \<Longrightarrow> start cur \<le> end prev + 1 \<Longrightarrow>
   lines (prev\<lparr>end := max (end prev) (end cur)\<rparr>) = lines prev \<union> lines cur"
  by (auto simp: lines_def)

lemma mergeFrom_lines:
  "sorted (map start (prev # todo)) \<Longrightarrow>
   (\<Union>m\<in>set (mergeFrom prev todo). lines m) = (\<Union>r\<in>set (prev # todo). lines r)"
proof (induction todo arbitrary: prev)
  case Nil
  then show ?case by simp
next
  case (Cons cur todo)
  show ?case
  proof (cases "start cur \<le> end prev + 1")
    case True
    let ?p = "prev\<lparr>end := max (end prev) (end cur)\<rparr>"
    have srt: "sorted (map start (?p # todo))" using Cons.prems(1) by simp
    have "start prev \<le> start cur" using Cons.prems by simp
    then have "lines ?p = lines prev \<union> lines cur" using True by (rule lines_merge_step)
    with True Cons.IH[OF srt] show ?thesis by (simp add: Un_assoc)
  next
    case False
    have "sorted (map start (cur # todo))" using Cons.prems(1) by simp
    with False Cons.IH[of cur] show ?thesis by simp
  qed
qed

lemma mergeFrom_fixed:
  "sorted_wrt apart (prev # todo) \<Longrightarrow> mergeFrom prev todo = prev # todo"
  by (induction todo arbitrary: prev) (auto simp: apart_def)

lemma apart_sorted_start: "sorted_wrt apart rs \<Longrightarrow> sorted (map start rs)"
  by (induction rs) (auto simp: apart_def)

lemma mergeAdjacentRanges_fixed:
  assumes a: "sorted_wrt apart rs"
  shows "mergeAdjacentRanges rs = rs"
proof (cases "length rs \<le> 1")
  case True
  then show ?thesis by (simp add: mergeAdjacentRanges_def)
next
  case False
  from a have s: "sort_key start rs = rs" by (simp add: apart_sorted_start sort_key_id_if_sorted)
  from False obtain s0 todo where rs: "rs = s0 # todo" by (cases rs) auto
  with s False a show ?thesis
    using mergeAdjacentRanges_mergeFrom[of rs s0 todo] mergeFrom_fixed[of s0 todo] by simp
qed

lemma mergeAdjacentRanges_apart: "sorted_wrt apart (mergeAdjacentRanges rs)"
proof (cases "length rs \<le> 1")
  case True
  then show ?thesis by (cases rs) (auto simp: mergeAdjacentRanges_def)
next
  case False
  then have "1 < length rs" by simp
  then obtain s0 todo where s: "sort_key start rs = s0 # todo"
    and srt: "sorted (map start (s0 # todo))" by (rule sort_key_start_Cons)
  show ?thesis using mergeAdjacentRanges_mergeFrom[OF s] False mergeFrom_apart[OF srt] by simp
qed

lemma mergeAdjacentRanges_covers:
  assumes "r \<in> set rs"
  shows "\<exists>m\<in>set (mergeAdjacentRanges rs). covers m r"
proof (cases "length rs \<le> 1")
  case True
  with assms show ?thesis by (auto simp: mergeAdjacentRanges_def covers_def)
next
  case False
  then have "1 < length rs" by simp
  then obtain s0 todo where s: "sort_key start rs = s0 # todo"
    and srt: "sorted (map start (s0 # todo))" and st: "set (s0 # todo) = set rs"
    by (rule sort_key_start_Cons)
  have "r \<in> set (s0 # todo)" using assms st by simp
  then show ?thesis
    using mergeAdjacentRanges_mergeFrom[OF s] False mergeFrom_covers[OF srt] by simp
qed

lemma mergeAdjacentRanges_lines:
  "(\<Union>m\<in>set (mergeAdjacentRanges rs). lines m) = (\<Union>r\<in>set rs. lines r)"
proof (cases "length rs \<le> 1")
  case True
  then show ?thesis by (simp add: mergeAdjacentRanges_def)
next
  case False
  then have "1 < length rs" by simp
  then obtain s0 todo where s: "sort_key start rs = s0 # todo"
    and srt: "sorted (map start (s0 # todo))" and st: "set (s0 # todo) = set rs"
    by (rule sort_key_start_Cons)
  have "(\<Union>m\<in>set (mergeFrom s0 todo). lines m) = (\<Union>r\<in>set rs. lines r)"
    unfolding mergeFrom_lines[OF srt] st ..
  then show ?thesis
    using mergeAdjacentRanges_mergeFrom[OF s] False by simp
qed

lemma mergeAdjacentRanges_joins:
  assumes r1: "r1 \<in> set rs" and r2: "r2 \<in> set rs"
    and le: "start r1 \<le> start r2" and adj: "start r2 \<le> end r1 + 1"
  shows "\<exists>m\<in>set (mergeAdjacentRanges rs). covers m r1 \<and> covers m r2"
proof -
  let ?out = "mergeAdjacentRanges rs"
  obtain m1 where m1: "m1 \<in> set ?out" "covers m1 r1"
    using mergeAdjacentRanges_covers[OF r1] by blast
  obtain m2 where m2: "m2 \<in> set ?out" "covers m2 r2"
    using mergeAdjacentRanges_covers[OF r2] by blast
  obtain i where i: "i < length ?out" "?out ! i = m1" using m1(1) by (auto simp: in_set_conv_nth)
  obtain j where j: "j < length ?out" "?out ! j = m2" using m2(1) by (auto simp: in_set_conv_nth)
  have ap: "sorted_wrt apart ?out" by (rule mergeAdjacentRanges_apart)
  consider "i < j" | "i = j" | "j < i" by linarith
  then show ?thesis
  proof cases
    case 1
    then have "apart m1 m2" using sorted_wrt_nth_less[OF ap 1 j(1)] i j by simp
    with m1(2) m2(2) le adj have False by (simp add: apart_def covers_def)
    then show ?thesis ..
  next
    case 2
    with i j m1 m2 show ?thesis by auto
  next
    case 3
    then have "apart m2 m1" using sorted_wrt_nth_less[OF ap 3 i(1)] i j by simp
    with m1(2) m2(2) le adj have "covers m1 r2" by (simp add: apart_def covers_def)
    with m1 show ?thesis by blast
  qed
qed

subsection \<open>Statements about the merge step\<close>

text \<open>
  Claim C5. For every list of line ranges of one file, the merge step combines the
  ranges that are adjacent or overlapping once sorted by start: the two ranges
  \<open>[10,12]\<close> and \<open>[13,15]\<close> become the single range \<open>[10,15]\<close>; any two input
  ranges of which the later one starts no further than one line after the end of the
  earlier one lie inside one and the same output range; and merging neither loses nor
  invents a line: the output ranges hold exactly the lines of the input ranges.
\<close>

theorem mergeAdjacentRanges_combines:
  "mergeAdjacentRanges [\<lparr>start = 10, end = 12\<rparr>, \<lparr>start = 13, end = 15\<rparr>]
     = [\<lparr>start = 10, end = 15\<rparr>]
   \<and> (\<forall>r1\<in>set rs. \<forall>r2\<in>set rs. start r1 \<le> start r2 \<and> start r2 \<le> end r1 + 1 \<longrightarrow>
        (\<exists>m\<in>set (mergeAdjacentRanges rs). covers m r1 \<and> covers m r2))
   \<and> (\<Union>m\<in>set (mergeAdjacentRanges rs). lines m) = (\<Union>r\<in>set rs. lines r)"
proof (intro conjI ballI impI)
  show "mergeAdjacentRanges [\<lparr>start = 10, end = 12\<rparr>, \<lparr>start = 13, end = 15\<rparr>]
     = [\<lparr>start = 10, end = 15\<rparr>]"
    by (simp add: mergeAdjacentRanges_def)
next
  fix r1 r2
  assume "r1 \<in> set rs" "r2 \<in> set rs" "start r1 \<le> start r2 \<and> start r2 \<le> end r1 + 1"
  then show "\<exists>m\<in>set (mergeAdjacentRanges rs). covers m r1 \<and> covers m r2"
    using mergeAdjacentRanges_joins[of r1 rs r2] by blast
next
  show "(\<Union>m\<in>set (mergeAdjacentRanges rs). lines m) = (\<Union>r\<in>set rs. lines r)"
    by (rule mergeAdjacentRanges_lines)
qed

text \<open>Witness for C5: three hunks given out of order, two of them overlapping; the
  overlapping ones are inside the merged range \<open>[3,9]\<close>, the third stays alone.\<close>

theorem mergeAdjacentRanges_combines_witness:
  "\<lparr>start = 3, end = 6\<rparr> \<in> set [\<lparr>start = 20, end = 21\<rparr>, \<lparr>start = 5, end = 9\<rparr>, \<lparr>start = 3, end = 6\<rparr>]
   \<and> \<lparr>start = 5, end = 9\<rparr> \<in> set [\<lparr>start = 20, end = 21\<rparr>, \<lparr>start = 5, end = 9\<rparr>, \<lparr>start = 3, end = 6\<rparr>]
   \<and> start \<lparr>start = 3, end = 6\<rparr> \<le> start \<lparr>start = 5, end = 9\<rparr>
   \<and> start \<lparr>start = 5, end = 9\<rparr> \<le> end \<lparr>start = 3, end = 6\<rparr> + 1
   \<and> (\<exists>m\<in>set (mergeAdjacentRanges
          [\<lparr>start = 20, end = 21\<rparr>, \<lparr>start = 5, end = 9\<rparr>, \<lparr>start = 3, end = 6\<rparr>]).
        covers m \<lparr>start = 3, end = 6\<rparr> \<and> covers m \<lparr>start = 5, end = 9\<rparr>)
   \<and> mergeAdjacentRanges [\<lparr>start = 20, end = 21\<rparr>, \<lparr>start = 5, end = 9\<rparr>, \<lparr>start = 3, end = 6\<rparr>]
      = [\<lparr>start = 3, end = 9\<rparr>, \<lparr>start = 20, end = 21\<rparr>]"
  using mergeAdjacentRanges_combines
    [of "[\<lparr>start = 20, end = 21\<rparr>, \<lparr>start = 5, end = 9\<rparr>, \<lparr>start = 3, end = 6\<rparr>]"]
  by (simp add: mergeAdjacentRanges_def covers_def)

text \<open>
  Claim C10. For every input list, the output of the merge step is in canonical form:
  it is sorted ascending by start, each output range starts at least two lines after the
  end of the one before it (\<open>next.start \<ge> prev.end + 2\<close>), and merging the output
  again returns it unchanged.
\<close>

theorem mergeAdjacentRanges_canonical:
  "sorted (map start (mergeAdjacentRanges rs))
   \<and> (\<forall>i. Suc i < length (mergeAdjacentRanges rs) \<longrightarrow>
         end (mergeAdjacentRanges rs ! i) + 2 \<le> start (mergeAdjacentRanges rs ! Suc i))
   \<and> mergeAdjacentRanges (mergeAdjacentRanges rs) = mergeAdjacentRanges rs"
proof (intro conjI allI impI)
  have ap: "sorted_wrt apart (mergeAdjacentRanges rs)" by (rule mergeAdjacentRanges_apart)
  show "sorted (map start (mergeAdjacentRanges rs))" using ap by (rule apart_sorted_start)
  show "mergeAdjacentRanges (mergeAdjacentRanges rs) = mergeAdjacentRanges rs"
    using ap by (rule mergeAdjacentRanges_fixed)
  fix i
  assume i: "Suc i < length (mergeAdjacentRanges rs)"
  have "apart (mergeAdjacentRanges rs ! i) (mergeAdjacentRanges rs ! Suc i)"
    using sorted_wrt_nth_less[OF ap _ i, of i] by simp
  then show "end (mergeAdjacentRanges rs ! i) + 2 \<le> start (mergeAdjacentRanges rs ! Suc i)"
    by (simp add: apart_def)
qed

text \<open>Witness for C10: four ranges, two of which touch; the output has two ranges with
  a gap of eleven lines between them.\<close>

theorem mergeAdjacentRanges_canonical_witness:
  "mergeAdjacentRanges [\<lparr>start = 20, end = 21\<rparr>, \<lparr>start = 5, end = 9\<rparr>, \<lparr>start = 3, end = 4\<rparr>, \<lparr>start = 22, end = 22\<rparr>]
     = [\<lparr>start = 3, end = 9\<rparr>, \<lparr>start = 20, end = 22\<rparr>]
   \<and> Suc 0 < length (mergeAdjacentRanges
        [\<lparr>start = 20, end = 21\<rparr>, \<lparr>start = 5, end = 9\<rparr>, \<lparr>start = 3, end = 4\<rparr>, \<lparr>start = 22, end = 22\<rparr>])
   \<and> end (mergeAdjacentRanges
        [\<lparr>start = 20, end = 21\<rparr>, \<lparr>start = 5, end = 9\<rparr>, \<lparr>start = 3, end = 4\<rparr>, \<lparr>start = 22, end = 22\<rparr>] ! 0) + 2
      \<le> start (mergeAdjacentRanges
        [\<lparr>start = 20, end = 21\<rparr>, \<lparr>start = 5, end = 9\<rparr>, \<lparr>start = 3, end = 4\<rparr>, \<lparr>start = 22, end = 22\<rparr>] ! Suc 0)
   \<and> mergeAdjacentRanges [\<lparr>start = 3, end = 9\<rparr>, \<lparr>start = 20, end = 22\<rparr>]
     = [\<lparr>start = 3, end = 9\<rparr>, \<lparr>start = 20, end = 22\<rparr>]"
  using mergeAdjacentRanges_canonical
    [of "[\<lparr>start = 20, end = 21\<rparr>, \<lparr>start = 5, end = 9\<rparr>, \<lparr>start = 3, end = 4\<rparr>, \<lparr>start = 22, end = 22\<rparr>]"]
  by (simp add: mergeAdjacentRanges_def)

subsection \<open>Hunk headers\<close>

text \<open>The header pattern accepts every header it is meant for, whatever follows it.\<close>

lemma lit_append: "lit l (l @ r) = Some r"
  by (simp add: lit_def)

lemma many1_digits:
  "digits ds \<Longrightarrow> r = [] \<or> \<not> isDigit (hd r) \<Longrightarrow> many1 isDigit (ds @ r) = Some (ds, r)"
  by (cases r) (auto simp: many1_def digits_def list_all_iff takeWhile_append2 dropWhile_append2
      takeWhile_eq_Nil_iff)

lemma many1_space:
  "\<not> isWhiteSpace (hd r) \<Longrightarrow> r \<noteq> [] \<Longrightarrow> many1 isWhiteSpace (CHR '' '' # r) = Some ('' '', r)"
  by (cases r) (auto simp: many1_def isWhiteSpace_def)

lemma optCount_some:
  "digits d \<Longrightarrow> r = [] \<or> \<not> isDigit (hd r) \<Longrightarrow> optCount (CHR '','' # d @ r) = (Some d, r)"
  using many1_digits[of d r] by (simp add: optCount_def lit_def)

lemma optCount_none:
  "r = [] \<or> hd r \<noteq> CHR '','' \<Longrightarrow> optCount r = (None, r)"
  by (cases r) (auto simp: optCount_def lit_def)

lemma CHUNK_HEADER_hunkHeader:
  assumes "digits a" "digits c"
    and "case b of None \<Rightarrow> True | Some b' \<Rightarrow> digits b'"
    and "case d of None \<Rightarrow> True | Some d' \<Rightarrow> digits d'"
  shows "CHUNK_HEADER (hunkHeader a b c d @ tail) = Some (c, d)"
proof -
  let ?oc = "case b of None \<Rightarrow> [] | Some b' \<Rightarrow> '','' @ b'"
  let ?nc = "case d of None \<Rightarrow> [] | Some d' \<Rightarrow> '','' @ d'"
  let ?r9 = "'' @@'' @ tail"
  let ?r5 = "'' +'' @ c @ ?nc @ ?r9"
  have h: "hunkHeader a b c d @ tail = ''@@'' @ CHR '' '' # (''-'' @ a @ ?oc @ ?r5)"
    by (simp add: hunkHeader_def)
  have 1: "many1 isWhiteSpace (CHR '' '' # (''-'' @ a @ ?oc @ ?r5)) = Some ('' '', ''-'' @ a @ ?oc @ ?r5)"
    by (rule many1_space) (simp_all add: isWhiteSpace_def)
  have 2: "many1 isDigit (a @ ?oc @ ?r5) = Some (a, ?oc @ ?r5)"
    using assms(1) by (rule many1_digits) (cases b; simp add: isDigit_def)
  have 3: "optCount (?oc @ ?r5) = (b, ?r5)"
  proof (cases b)
    case None
    then show ?thesis using optCount_none[of ?r5] by simp
  next
    case (Some b')
    then show ?thesis using assms(3) optCount_some[of b' ?r5] by (simp add: isDigit_def)
  qed
  have 4: "many1 isWhiteSpace ?r5 = Some ('' '', ''+'' @ c @ ?nc @ ?r9)"
    using many1_space[of "''+'' @ c @ ?nc @ ?r9"] by (simp add: isWhiteSpace_def)
  have 5: "many1 isDigit (c @ ?nc @ ?r9) = Some (c, ?nc @ ?r9)"
    using assms(2) by (rule many1_digits) (cases d; simp add: isDigit_def)
  have 6: "optCount (?nc @ ?r9) = (d, ?r9)"
  proof (cases d)
    case None
    then show ?thesis using optCount_none[of ?r9] by simp
  next
    case (Some d')
    then show ?thesis using assms(4) optCount_some[of d' ?r9] by (simp add: isDigit_def)
  qed
  have 7: "many1 isWhiteSpace ?r9 = Some ('' '', ''@@'' @ tail)"
    using many1_space[of "''@@'' @ tail"] by (simp add: isWhiteSpace_def)
  show ?thesis
    unfolding h CHUNK_HEADER_def
    using 1 2 3 4 5 6 7 lit_append[of "''@@''"] lit_append[of "''-''"] lit_append[of "''+''"]
    by simp
qed

lemma extractNewRange_hunkHeader:
  assumes "digits a" "digits c"
    and "case b of None \<Rightarrow> True | Some b' \<Rightarrow> digits b'"
    and "case d of None \<Rightarrow> True | Some d' \<Rightarrow> digits d'"
  shows "extractNewRange (hunkHeader a b c d @ tail) =
     (case d of
        None \<Rightarrow> Some \<lparr>start = parseInt c, end = parseInt c\<rparr>
      | Some d' \<Rightarrow> if 0 < parseInt d'
                    then Some \<lparr>start = parseInt c, end = parseInt c + parseInt d' - 1\<rparr>
                    else None)"
  using CHUNK_HEADER_hunkHeader[OF assms, of tail]
  by (auto simp: extractNewRange_def Let_def split: option.splits)

subsection \<open>Pairing\<close>

text \<open>The loop of \<^verbatim>\<open>pairBubbles\<close> is \<open>pairsStart\<close>; every pair it builds satisfies
  \<open>good\<close> for each of its assistant turns, and the user turns of the pairs come in the
  order of the input.\<close>

lemma closePair_append: "closePair u acc pairs = pairs @ closePair u acc []"
  by (simp add: closePair_def)

lemma loop_Some:
  "finishPairs (pairBubbles_loop bs pairs (Some u) acc) = pairs @ pairsFrom u acc bs"
proof (induction bs arbitrary: pairs u acc)
  case Nil
  then show ?case by (simp add: finishPairs_def closePair_append[of _ _ pairs])
next
  case (Cons b bs)
  show ?case
  proof (cases "type b")
    case User
    then show ?thesis using Cons.IH[of "closePair u acc pairs" b "[]"]
      by (simp add: closePair_append[of u acc pairs])
  next
    case Assistant
    then show ?thesis using Cons.IH[of pairs u "acc @ [b]"] by simp
  qed
qed

lemma loop_None:
  "finishPairs (pairBubbles_loop bs pairs None acc) = pairs @ pairsStart bs"
proof (induction bs)
  case Nil
  then show ?case by (simp add: finishPairs_def)
next
  case (Cons b bs)
  then show ?case by (cases "type b") (simp_all add: loop_Some)
qed

lemma pairBubbles_pairsStart: "pairBubbles bs = pairsStart bs"
  using loop_None[of bs "[]" "[]"] by (simp add: pairBubbles_def finishPairs_def)

lemma closePair_cases:
  "closePair u acc [] = [] \<or>
   closePair u acc [] = [\<lparr>userBubble = u, assistantBubbles = filteredAssistants u acc\<rparr>]"
  by (simp add: closePair_def)

lemma in_closePair:
  "p \<in> set (closePair u acc []) \<Longrightarrow> p = \<lparr>userBubble = u, assistantBubbles = filteredAssistants u acc\<rparr>"
  by (simp add: closePair_def split: if_splits)

lemma filteredAssistants_sub:
  "a \<in> set (filteredAssistants u acc) \<Longrightarrow> a \<in> set acc \<and> composerId a = composerId u \<and> trim (text a) \<noteq> []"
  by (simp add: filteredAssistants_def)

lemma pairsFrom_members:
  "p \<in> set (pairsFrom u acc bs) \<Longrightarrow>
   userBubble p \<in> set (u # bs) \<and> set (assistantBubbles p) \<subseteq> set (acc @ bs)"
proof (induction bs arbitrary: u acc)
  case Nil
  then show ?case by (auto dest!: in_closePair filteredAssistants_sub)
next
  case (Cons b bs)
  show ?case
  proof (cases "type b = User")
    case True
    with Cons.prems have "p \<in> set (closePair u acc []) \<or> p \<in> set (pairsFrom b [] bs)" by simp
    then show ?thesis
    proof
      assume "p \<in> set (closePair u acc [])"
      then show ?thesis by (auto dest!: in_closePair filteredAssistants_sub)
    next
      assume "p \<in> set (pairsFrom b [] bs)"
      from Cons.IH[OF this] show ?thesis by auto
    qed
  next
    case False
    with Cons.prems have "p \<in> set (pairsFrom u (acc @ [b]) bs)" by simp
    from Cons.IH[OF this] show ?thesis by auto
  qed
qed

lemma good_closePair:
  assumes srt: "sorted_wrt (<) (map pos (u # acc @ bs))"
    and u: "type u = User" and acc: "\<forall>x\<in>set acc. type x \<noteq> User"
    and p: "p \<in> set (closePair u acc [])" and a: "a \<in> set (assistantBubbles p)"
  shows "good (u # acc @ bs) p a"
proof -
  from p have pe: "p = \<lparr>userBubble = u, assistantBubbles = filteredAssistants u acc\<rparr>"
    by (rule in_closePair)
  with a have a': "a \<in> set acc" "composerId a = composerId u"
    by (auto dest: filteredAssistants_sub)
  from a'(1) acc have ta: "type a = Assistant" by (cases "type a") auto
  from srt a'(1) have lt: "pos u < pos a" by auto
  have "\<forall>x\<in>set (u # acc @ bs). pos u < pos x \<and> pos x < pos a \<longrightarrow> type x \<noteq> User"
  proof (intro ballI impI)
    fix x assume x: "x \<in> set (u # acc @ bs)" and b: "pos u < pos x \<and> pos x < pos a"
    have "x \<notin> set bs"
    proof
      assume "x \<in> set bs"
      with srt a'(1) have "pos a < pos x" by (auto simp: sorted_wrt_append)
      with b show False by simp
    qed
    moreover have "x \<noteq> u" using b by auto
    ultimately have "x \<in> set acc" using x by auto
    with acc show "type x \<noteq> User" by simp
  qed
  with pe u ta a'(2) lt show ?thesis by (simp add: good_def)
qed

lemma good_pairsFrom:
  "sorted_wrt (<) (map pos (u # acc @ bs)) \<Longrightarrow> type u = User \<Longrightarrow> \<forall>x\<in>set acc. type x \<noteq> User \<Longrightarrow>
   p \<in> set (pairsFrom u acc bs) \<Longrightarrow> a \<in> set (assistantBubbles p) \<Longrightarrow> good (u # acc @ bs) p a"
proof (induction bs arbitrary: u acc)
  case Nil
  then show ?case using good_closePair[of u acc "[]" p a] by simp
next
  case (Cons b bs)
  show ?case
  proof (cases "type b = User")
    case True
    with Cons.prems(4) have "p \<in> set (closePair u acc []) \<or> p \<in> set (pairsFrom b [] bs)" by simp
    then show ?thesis
    proof
      assume "p \<in> set (closePair u acc [])"
      then show ?thesis using good_closePair[of u acc "b # bs" p a] Cons.prems by simp
    next
      assume pin: "p \<in> set (pairsFrom b [] bs)"
      have srt': "sorted_wrt (<) (map pos (b # [] @ bs))"
        using Cons.prems(1) by (simp add: sorted_wrt_append)
      have g: "good (b # [] @ bs) p a"
        using Cons.IH[OF srt' True _ pin Cons.prems(5)] by simp
      have up: "userBubble p \<in> set (b # bs)" using pairsFrom_members[OF pin] by simp
      have low: "\<forall>x\<in>set (u # acc). pos x < pos (userBubble p)"
        using Cons.prems(1) up by (auto simp: sorted_wrt_append)
      show ?thesis using g low unfolding good_def by auto
    qed
  next
    case False
    with Cons.prems(4) have pin: "p \<in> set (pairsFrom u (acc @ [b]) bs)" by simp
    have "good (u # (acc @ [b]) @ bs) p a"
      using Cons.IH[OF _ Cons.prems(2) _ pin Cons.prems(5)] Cons.prems(1,3) False by simp
    then show ?thesis by simp
  qed
qed

lemma users_sorted_pairsFrom:
  "sorted_wrt (<) (map pos (u # acc @ bs)) \<Longrightarrow>
   sorted_wrt (<) (map (\<lambda>p. pos (userBubble p)) (pairsFrom u acc bs))"
proof (induction bs arbitrary: u acc)
  case Nil
  then show ?case using closePair_cases[of u acc] by auto
next
  case (Cons b bs)
  show ?case
  proof (cases "type b = User")
    case True
    have srt': "sorted_wrt (<) (map pos (b # [] @ bs))"
      using Cons.prems(1) by (simp add: sorted_wrt_append)
    have 1: "sorted_wrt (<) (map (\<lambda>p. pos (userBubble p)) (pairsFrom b [] bs))"
      using Cons.IH[OF srt'] .
    have 2: "\<forall>p\<in>set (pairsFrom b [] bs). pos u < pos (userBubble p)"
    proof
      fix p assume "p \<in> set (pairsFrom b [] bs)"
      then have "userBubble p \<in> set (b # bs)" using pairsFrom_members by blast
      with Cons.prems show "pos u < pos (userBubble p)" by (auto simp: sorted_wrt_append)
    qed
    show ?thesis using True 1 2 closePair_cases[of u acc]
      by (auto simp: sorted_wrt_append)
  next
    case False
    then show ?thesis using Cons.IH[of u "acc @ [b]"] Cons.prems by simp
  qed
qed

lemma pairsStart_members:
  "p \<in> set (pairsStart xs) \<Longrightarrow> userBubble p \<in> set xs \<and> set (assistantBubbles p) \<subseteq> set xs"
proof (induction xs)
  case Nil
  then show ?case by simp
next
  case (Cons b bs)
  show ?case
  proof (cases "type b = User")
    case True
    with Cons.prems have "p \<in> set (pairsFrom b [] bs)" by simp
    from pairsFrom_members[OF this] show ?thesis by auto
  next
    case False
    with Cons show ?thesis by auto
  qed
qed

lemma good_pairsStart:
  "sorted_wrt (<) (map pos xs) \<Longrightarrow> p \<in> set (pairsStart xs) \<Longrightarrow> a \<in> set (assistantBubbles p) \<Longrightarrow>
   good xs p a"
proof (induction xs)
  case Nil
  then show ?case by simp
next
  case (Cons b bs)
  show ?case
  proof (cases "type b = User")
    case True
    with Cons.prems have "p \<in> set (pairsFrom b [] bs)" by simp
    then show ?thesis using good_pairsFrom[of b "[]" bs p a] Cons.prems True by simp
  next
    case False
    with Cons.prems have pin: "p \<in> set (pairsStart bs)" by simp
    have g: "good bs p a" using Cons.IH[OF _ pin Cons.prems(3)] Cons.prems(1) by simp
    show ?thesis using g False unfolding good_def by auto
  qed
qed

lemma users_sorted_pairsStart:
  "sorted_wrt (<) (map pos xs) \<Longrightarrow>
   sorted_wrt (<) (map (\<lambda>p. pos (userBubble p)) (pairsStart xs))"
proof (induction xs)
  case Nil
  then show ?case by simp
next
  case (Cons b bs)
  then show ?case using users_sorted_pairsFrom[of b "[]" bs] by (cases "type b = User") auto
qed

text \<open>Pairing does not look at the number attached to a turn, so the pairs of the numbered
  turns are the pairs of the turns, and the numbers are the positions.\<close>

lemma filteredAssistants_map:
  "keeps f \<Longrightarrow> filteredAssistants (f u) (map f acc) = map f (filteredAssistants u acc)"
  by (simp add: filteredAssistants_def keeps_def filter_map comp_def)

lemma closePair_map:
  "keeps f \<Longrightarrow> closePair (f u) (map f acc) [] = map (mapPair f) (closePair u acc [])"
  by (simp add: closePair_def filteredAssistants_map mapPair_def)

lemma pairsFrom_map:
  "keeps f \<Longrightarrow> pairsFrom (f u) (map f acc) (map f bs) = map (mapPair f) (pairsFrom u acc bs)"
proof (induction bs arbitrary: u acc)
  case Nil
  then show ?case by (simp add: closePair_map)
next
  case (Cons b bs)
  have t: "type (f b) = type b" using Cons.prems by (simp add: keeps_def)
  show ?case
  proof (cases "type b = User")
    case True
    then show ?thesis using t Cons.IH[OF Cons.prems, of b "[]"] closePair_map[OF Cons.prems, of u acc]
      by simp
  next
    case False
    then show ?thesis using t Cons.IH[OF Cons.prems, of u "acc @ [b]"] by simp
  qed
qed

lemma pairsStart_map:
  "keeps f \<Longrightarrow> pairsStart (map f bs) = map (mapPair f) (pairsStart bs)"
proof (induction bs)
  case Nil
  then show ?case by simp
next
  case (Cons b bs)
  have t: "type (f b) = type b" using Cons.prems by (simp add: keeps_def)
  show ?case using t Cons pairsFrom_map[OF Cons.prems, of b "[]" bs] by simp
qed

lemma keeps_truncate: "keeps (Bubble.truncate :: nat Bubble_scheme \<Rightarrow> Bubble)"
  by (simp add: keeps_def Bubble.truncate_def)

lemma length_numbered [simp]: "length (numbered bs) = length bs"
  by (simp add: numbered_def)

lemma nth_numbered: "i < length bs \<Longrightarrow> numbered bs ! i = Bubble.extend (bs ! i) i"
  by (simp add: numbered_def)

lemma pos_numbered: "map pos (numbered bs) = [0..<length bs]"
  by (simp add: numbered_def Bubble.extend_def comp_def)

lemma truncate_numbered: "map Bubble.truncate (numbered bs) = bs"
  by (rule nth_equalityI) (simp_all add: numbered_def Bubble.extend_def Bubble.truncate_def)

lemma in_numbered:
  "x \<in> set (numbered bs) \<Longrightarrow>
   pos x < length bs \<and> Bubble.truncate x = bs ! pos x \<and> type x = type (bs ! pos x)
   \<and> composerId x = composerId (bs ! pos x)"
  by (auto simp: numbered_def Bubble.extend_def Bubble.truncate_def)

lemma numbered_mem: "i < length bs \<Longrightarrow> Bubble.extend (bs ! i) i \<in> set (numbered bs)"
  by (auto simp: numbered_def)

lemma sorted_numbered: "sorted_wrt (<) (map pos (numbered bs))"
  by (simp add: pos_numbered)

lemma pairBubbles_numbered:
  "pairBubbles bs = map (mapPair Bubble.truncate) (pairBubbles (numbered bs))"
  using pairsStart_map[OF keeps_truncate, of "numbered bs"]
  by (simp add: pairBubbles_pairsStart truncate_numbered)

lemma pairBubbles_pairIndices:
  "pairBubbles bs =
     map (\<lambda>(j, is). \<lparr>userBubble = bs ! j, assistantBubbles = map ((!) bs) is\<rparr>) (pairIndices bs)"
proof -
  have "\<forall>p\<in>set (pairBubbles (numbered bs)).
          mapPair Bubble.truncate p =
          \<lparr>userBubble = bs ! pos (userBubble p), assistantBubbles = map ((!) bs) (map pos (assistantBubbles p))\<rparr>"
  proof
    fix p assume "p \<in> set (pairBubbles (numbered bs))"
    then have m: "userBubble p \<in> set (numbered bs)" "set (assistantBubbles p) \<subseteq> set (numbered bs)"
      using pairsStart_members[of p "numbered bs"] by (simp_all add: pairBubbles_pairsStart)
    have "Bubble.truncate (userBubble p) = bs ! pos (userBubble p)" using in_numbered[OF m(1)] by simp
    moreover have "map Bubble.truncate (assistantBubbles p) = map ((!) bs) (map pos (assistantBubbles p))"
      using m(2) in_numbered by (auto simp: subset_iff)
    ultimately show "mapPair Bubble.truncate p =
          \<lparr>userBubble = bs ! pos (userBubble p), assistantBubbles = map ((!) bs) (map pos (assistantBubbles p))\<rparr>"
      by (simp add: mapPair_def)
  qed
  then show ?thesis
    unfolding pairBubbles_numbered[of bs] pairIndices_def by (simp add: comp_def)
qed

lemma pairIndices_good:
  assumes "(j, is) \<in> set (pairIndices bs)" and "i \<in> set is"
  shows "nearestUser bs j i \<and> composerId (bs ! i) = composerId (bs ! j)"
proof -
  from assms(1) obtain p where p: "p \<in> set (pairBubbles (numbered bs))"
    and j: "j = pos (userBubble p)" and is': "is = map pos (assistantBubbles p)"
    by (auto simp: pairIndices_def)
  from assms(2) is' obtain a where a: "a \<in> set (assistantBubbles p)" and i: "i = pos a" by auto
  have ps: "p \<in> set (pairsStart (numbered bs))" using p by (simp add: pairBubbles_pairsStart)
  have g: "good (numbered bs) p a" using good_pairsStart[OF sorted_numbered ps a] .
  have mu: "userBubble p \<in> set (numbered bs)" and ma: "a \<in> set (numbered bs)"
    using pairsStart_members[OF ps] a by auto
  note iu = in_numbered[OF mu] and ia = in_numbered[OF ma]
  have between: "\<forall>m. j < m \<and> m < i \<longrightarrow> type (bs ! m) \<noteq> User"
  proof (intro allI impI)
    fix m assume m: "j < m \<and> m < i"
    then have ml: "m < length bs" using ia i by simp
    let ?x = "Bubble.extend (bs ! m) m"
    have "?x \<in> set (numbered bs)" using ml by (rule numbered_mem)
    moreover have "pos ?x = m" "type ?x = type (bs ! m)" by (simp_all add: Bubble.extend_def)
    ultimately show "type (bs ! m) \<noteq> User" using g m j i unfolding good_def by metis
  qed
  show ?thesis using g iu ia between j i unfolding good_def nearestUser_def by simp
qed

lemma pairIndices_users_sorted: "sorted_wrt (<) (map fst (pairIndices bs))"
  using users_sorted_pairsStart[OF sorted_numbered, of bs]
  by (simp add: pairIndices_def pairBubbles_pairsStart comp_def)

lemma nearestUser_unique: "nearestUser bs j i \<Longrightarrow> nearestUser bs j' i \<Longrightarrow> j = j'"
  unfolding nearestUser_def by (metis linorder_neqE_nat)

lemma pairIndices_one_pair:
  assumes k: "k < length (pairIndices bs)" and k': "k' < length (pairIndices bs)"
    and i: "i \<in> set (snd (pairIndices bs ! k))" and i': "i \<in> set (snd (pairIndices bs ! k'))"
  shows "k = k'"
proof -
  have 1: "nearestUser bs (fst (pairIndices bs ! k)) i"
    using pairIndices_good[of "fst (pairIndices bs ! k)" "snd (pairIndices bs ! k)" bs i] k i
    by (simp add: nth_mem)
  have 2: "nearestUser bs (fst (pairIndices bs ! k')) i"
    using pairIndices_good[of "fst (pairIndices bs ! k')" "snd (pairIndices bs ! k')" bs i] k' i'
    by (simp add: nth_mem)
  have eq: "map fst (pairIndices bs) ! k = map fst (pairIndices bs) ! k'"
    using nearestUser_unique[OF 1 2] k k' by simp
  have d: "distinct (map fst (pairIndices bs))"
    using pairIndices_users_sorted[of bs] by (simp add: strict_sorted_iff)
  show ?thesis using nth_eq_iff_index_eq[OF d, of k k'] eq k k' by simp
qed

subsection \<open>The in-progress flag\<close>

lemma inFlight_flag: "inFlight st n \<Longrightarrow> n = (if isProcessing st then 1 else 0)"
proof (induction rule: inFlight.induct)
  case start
  then show ?case by (simp add: newDetector_def)
next
  case (tick st n go st')
  then show ?case by (auto simp: checkForNewPairs_enter_def Let_def split: if_splits)
next
  case (finish st n env)
  then show ?case by (auto simp: checkForNewPairs_body_def split: prod.splits if_splits)
next
  case (reset st n)
  then show ?case by (simp add: resetCache_def)
qed

subsection \<open>The completion filter\<close>

lemma filterCompletedPairs_loop_filter:
  assumes "pairs = [] \<or> assistantBubbles (last pairs) \<noteq> []"
  shows "filterCompletedPairs_loop now pairs i completedPairs =
   Inr (completedPairs @ map ((!) pairs)
     (filter (\<lambda>k. isPairComplete now (pairs ! k) (k = length pairs - 1)) [i..<length pairs]))"
  using assms
proof (induction now pairs i completedPairs rule: filterCompletedPairs_loop.induct)
  case (1 now pairs i completedPairs)
  show ?case
  proof (cases "i < length pairs")
    case True
    then have u: "[i..<length pairs] = i # [i + 1..<length pairs]" by (simp add: upt_conv_Cons)
    have ne: "pairs \<noteq> []" using True by auto
    have nothrow: "\<not> (i = length pairs - 1
        \<and> \<not> isPairComplete now (pairs ! i) (i = length pairs - 1)
        \<and> length (assistantBubbles (pairs ! i)) = 0)"
      using "1.prems" ne by (auto simp: last_conv_nth)
    show ?thesis
      using True nothrow "1.IH"[OF True refl refl nothrow "1.prems"]
      by (subst filterCompletedPairs_loop.simps) (simp add: u Let_def)
  next
    case False
    then show ?thesis by (subst filterCompletedPairs_loop.simps) simp
  qed
qed

lemma filterCompletedPairs_loop_throws:
  assumes "pairs \<noteq> []" and "assistantBubbles (last pairs) = []" and "i < length pairs"
  shows "filterCompletedPairs_loop now pairs i completedPairs = Inl (Error ''TypeError'')"
  using assms
proof (induction now pairs i completedPairs rule: filterCompletedPairs_loop.induct)
  case (1 now pairs i completedPairs)
  show ?case
  proof (cases "i = length pairs - 1")
    case True
    then have "assistantBubbles (pairs ! i) = []" using "1.prems" by (simp add: last_conv_nth)
    then show ?thesis
      using True "1.prems"(3)
      by (subst filterCompletedPairs_loop.simps) (simp add: Let_def isPairComplete_def)
  next
    case False
    then have lt: "i + 1 < length pairs" using "1.prems"(3) by simp
    have nothrow: "\<not> (i = length pairs - 1
        \<and> \<not> isPairComplete now (pairs ! i) (i = length pairs - 1)
        \<and> length (assistantBubbles (pairs ! i)) = 0)" using False by simp
    show ?thesis
      using False "1.prems"(3) "1.IH"[OF "1.prems"(3) refl refl nothrow "1.prems"(1,2) lt]
      by (subst filterCompletedPairs_loop.simps) (simp add: Let_def)
  qed
qed

lemma filter_nth_upt:
  "map ((!) xs) (filter (\<lambda>k. P (xs ! k)) [0..<length xs]) = filter P xs"
proof -
  have "filter P (map ((!) xs) [0..<length xs]) = map ((!) xs) (filter (P \<circ> (!) xs) [0..<length xs])"
    by (rule filter_map)
  then show ?thesis by (simp add: map_nth comp_def)
qed

lemma filterCompletedPairs_snoc:
  "filterCompletedPairs now (ps @ [p]) allBubbles =
   (if assistantBubbles p = [] then Inl (Error ''TypeError'')
    else Inr (filter (\<lambda>q. isPairComplete now q False) ps
              @ (if isPairComplete now p True then [p] else [])))"
proof (cases "assistantBubbles p = []")
  case True
  then show ?thesis
    using filterCompletedPairs_loop_throws[of "ps @ [p]" 0 now "[]"]
    by (simp add: filterCompletedPairs_def)
next
  case False
  have a: "filter (\<lambda>k. isPairComplete now ((ps @ [p]) ! k) (k = length ps)) [0..<length ps]
         = filter (\<lambda>k. isPairComplete now (ps ! k) False) [0..<length ps]"
    by (rule filter_cong) (auto simp: nth_append)
  have b: "map ((!) (ps @ [p])) (filter (\<lambda>k. isPairComplete now (ps ! k) False) [0..<length ps])
         = map ((!) ps) (filter (\<lambda>k. isPairComplete now (ps ! k) False) [0..<length ps])"
    by (rule map_cong) (auto simp: nth_append)
  have c: "ps @ [p] = [] \<or> assistantBubbles (last (ps @ [p])) \<noteq> []" using False by simp
  show ?thesis
    using False
    by (simp add: filterCompletedPairs_def filterCompletedPairs_loop_filter[OF c] a b
        filter_nth_upt[of ps "\<lambda>q. isPairComplete now q False"])
qed

lemma filterCompletedPairs_completedPairsOf:
  "pairs = [] \<or> assistantBubbles (last pairs) \<noteq> [] \<Longrightarrow>
   filterCompletedPairs now pairs allBubbles = Inr (completedPairsOf now pairs)"
proof (cases pairs rule: rev_cases)
  case Nil
  then show ?thesis by (simp add: filterCompletedPairs_def completedPairsOf_def)
next
  case (snoc ps p)
  assume "pairs = [] \<or> assistantBubbles (last pairs) \<noteq> []"
  with snoc show ?thesis by (simp add: filterCompletedPairs_snoc completedPairsOf_def)
qed

lemma completedPairsOf_subseq: "subseq (completedPairsOf now pairs) pairs"
proof (cases pairs rule: rev_cases)
  case Nil
  then show ?thesis by (simp add: completedPairsOf_def)
next
  case (snoc ps p)
  then show ?thesis
    by (auto simp: completedPairsOf_def intro!: list_emb_append_mono)
qed

lemma pairsFrom_answered:
  "p \<in> set (pairsFrom u acc bs) \<Longrightarrow> assistantBubbles p \<noteq> []"
proof (induction bs arbitrary: u acc)
  case Nil
  then show ?case by (auto simp: closePair_def split: if_splits)
next
  case (Cons b bs)
  then show ?case by (auto simp: closePair_def split: if_splits)
qed

lemma pairBubbles_answered:
  "p \<in> set (pairBubbles bs) \<Longrightarrow> assistantBubbles p \<noteq> []"
proof -
  have "p \<in> set (pairsStart bs) \<Longrightarrow> assistantBubbles p \<noteq> []"
    by (induction bs) (auto dest: pairsFrom_answered split: if_splits)
  then show "p \<in> set (pairBubbles bs) \<Longrightarrow> assistantBubbles p \<noteq> []"
    by (simp add: pairBubbles_pairsStart)
qed

lemma filterCompletedPairs_pairBubbles:
  "filterCompletedPairs now (pairBubbles bs) allBubbles = Inr (completedPairsOf now (pairBubbles bs))"
proof (rule filterCompletedPairs_completedPairsOf)
  show "pairBubbles bs = [] \<or> assistantBubbles (last (pairBubbles bs)) \<noteq> []"
    using pairBubbles_answered[of "last (pairBubbles bs)" bs] by (cases "pairBubbles bs = []") auto
qed


subsection \<open>The poll cycle\<close>

text \<open>What one cycle calls, and what it leaves in the cache.\<close>

lemma emittedIds_mem:
  "k \<in> set (emittedIds cs) \<longleftrightarrow> (\<exists>p. OnNewPair p \<in> set cs \<and> pairId p = k)"
  by (induction cs rule: emittedIds.induct) auto

lemma emittedIds_append: "emittedIds (xs @ ys) = emittedIds xs @ emittedIds ys"
  by (induction xs rule: emittedIds.induct) auto

lemma emitNewPairs_None:
  "emitNewPairs None c ps = (c', cs, r) \<Longrightarrow> cs = [] \<and> r = None \<and> dom c \<subseteq> dom c'"
proof (induction ps arbitrary: c)
  case Nil
  then show ?case by simp
next
  case (Cons q ps)
  from Cons.prems have a: "emitNewPairs None (c(pairId q \<mapsto> True)) ps = (c', cs, r)" by simp
  from Cons.IH[OF a] have 1: "cs = []" "r = None" "dom (c(pairId q \<mapsto> True)) \<subseteq> dom c'"
    by blast+
  have 2: "dom c \<subseteq> dom (c(pairId q \<mapsto> True))" by (simp add: subset_insertI)
  from 1 2 show ?case by blast
qed

lemma emitNewPairs_Some:
  "emitNewPairs (Some h) c ps = (c', cs, r) \<Longrightarrow>
   dom c' = dom c \<union> {pairId p | p. OnNewPair p \<in> set cs \<and> h p = None}
   \<and> (\<forall>p. OnNewPair p \<in> set cs \<longrightarrow> p \<in> set ps)
   \<and> prefix (emittedIds cs) (map pairId ps)"
proof (induction ps arbitrary: c c' cs r)
  case Nil
  then show ?case by auto
next
  case (Cons q ps)
  show ?case
  proof (cases "h q")
    case (Some e)
    with Cons.prems have "c' = c" "cs = [OnNewPair q]" by auto
    with Some show ?thesis by auto
  next
    case None
    obtain c2 cs2 r2 where e2: "emitNewPairs (Some h) (c(pairId q \<mapsto> True)) ps = (c2, cs2, r2)"
      by (metis prod_cases3)
    with None Cons.prems have eq: "c' = c2" "cs = OnNewPair q # cs2" by auto
    from Cons.IH[OF e2] have
      d: "dom c2 = dom (c(pairId q \<mapsto> True)) \<union> {pairId p | p. OnNewPair p \<in> set cs2 \<and> h p = None}"
      and m: "\<forall>p. OnNewPair p \<in> set cs2 \<longrightarrow> p \<in> set ps"
      and p: "prefix (emittedIds cs2) (map pairId ps)" by blast+
    have s1: "{pairId p | p. OnNewPair p \<in> set (OnNewPair q # cs2) \<and> h p = None}
            = insert (pairId q) {pairId p | p. OnNewPair p \<in> set cs2 \<and> h p = None}"
      using None by auto
    have s2: "dom (c(pairId q \<mapsto> True)) = insert (pairId q) (dom c)" by simp
    have "dom c' = dom c \<union> {pairId p | p. OnNewPair p \<in> set cs \<and> h p = None}"
      unfolding eq d s1 s2 by blast
    moreover have "\<forall>p. OnNewPair p \<in> set cs \<longrightarrow> p \<in> set (q # ps)" using m eq by auto
    moreover have "prefix (emittedIds cs) (map pairId (q # ps))" using p eq by simp
    ultimately show ?thesis by blast
  qed
qed

lemma emitNewPairs_calls:
  "emitNewPairs cb c ps = (c', cs, r) \<Longrightarrow> OnNewPair p \<in> set cs \<Longrightarrow> p \<in> set ps"
  using emitNewPairs_None[of c ps c' cs r] emitNewPairs_Some[of _ c ps c' cs r]
  by (cases cb) auto

lemma emitNewPairs_mono:
  "emitNewPairs cb c ps = (c', cs, r) \<Longrightarrow> dom c \<subseteq> dom c'"
  using emitNewPairs_None[of c ps c' cs r] emitNewPairs_Some[of _ c ps c' cs r]
  by (cases cb) auto

lemma emitNewPairs_prefix:
  "emitNewPairs cb c ps = (c', cs, r) \<Longrightarrow> prefix (emittedIds cs) (map pairId ps)"
  using emitNewPairs_None[of c ps c' cs r] emitNewPairs_Some[of _ c ps c' cs r]
  by (cases cb) auto

lemma tryBlock_fetched:
  "activeComposer env = Inr (Some composer) \<Longrightarrow> composer \<noteq> [] \<Longrightarrow>
   bubblesForComposer env composer = Inr fetched \<Longrightarrow>
   tryBlock env st =
     (if fetched = [] \<or> newPairsOf env st fetched = []
      then (cache st, [GetActiveComposer, GetBubblesForComposer composer], None)
      else (case emitNewPairs (onNewPair env) (cache st) (newPairsOf env st fetched) of
              (c', cs, r) \<Rightarrow> (c', [GetActiveComposer, GetBubblesForComposer composer] @ cs, r)))"
  by (simp add: tryBlock_def newPairsOf_def Let_def filterCompletedPairs_pairBubbles)

lemma tryBlock_early:
  "activeComposer env = Inl e \<or> activeComposer env = Inr None \<or> activeComposer env = Inr (Some [])
   \<or> (\<exists>composer e. activeComposer env = Inr (Some composer) \<and> bubblesForComposer env composer = Inl e)
   \<Longrightarrow> fst (tryBlock env st) = cache st \<and> emittedIds (fst (snd (tryBlock env st))) = []
       \<and> (\<forall>p. OnNewPair p \<notin> set (fst (snd (tryBlock env st))))"
proof (elim disjE exE conjE)
  fix composer e
  assume "activeComposer env = Inr (Some composer)" "bubblesForComposer env composer = Inl e"
  then show ?thesis by (cases "composer = []") (simp_all add: tryBlock_def)
qed (simp_all add: tryBlock_def)

lemma tryBlock_cases:
  assumes "tryBlock env st = (c', cs, r)"
  shows "(c' = cache st \<and> (\<forall>p. OnNewPair p \<notin> set cs) \<and> emittedIds cs = [])
       \<or> (\<exists>composer fetched cs2.
             bubblesForComposer env composer = Inr fetched
           \<and> emitNewPairs (onNewPair env) (cache st) (newPairsOf env st fetched) = (c', cs2, r)
           \<and> cs = [GetActiveComposer, GetBubblesForComposer composer] @ cs2)"
proof (cases "\<exists>composer fetched. activeComposer env = Inr (Some composer) \<and> composer \<noteq> []
                \<and> bubblesForComposer env composer = Inr fetched")
  case False
  then have "activeComposer env = Inl (projl (activeComposer env)) \<or> activeComposer env = Inr None
     \<or> activeComposer env = Inr (Some [])
     \<or> (\<exists>composer e. activeComposer env = Inr (Some composer) \<and> bubblesForComposer env composer = Inl e)"
    by (cases "activeComposer env"; cases "projr (activeComposer env)";
        cases "bubblesForComposer env (the (projr (activeComposer env)))") auto
  then have "fst (tryBlock env st) = cache st \<and> emittedIds (fst (snd (tryBlock env st))) = []
       \<and> (\<forall>p. OnNewPair p \<notin> set (fst (snd (tryBlock env st))))"
    by (rule tryBlock_early)
  with assms show ?thesis by simp
next
  case True
  then obtain composer fetched where a: "activeComposer env = Inr (Some composer)" "composer \<noteq> []"
    "bubblesForComposer env composer = Inr fetched" by blast
  note t = tryBlock_fetched[OF a, of st]
  show ?thesis
  proof (cases "fetched = [] \<or> newPairsOf env st fetched = []")
    case True
    with t assms have "c' = cache st" "cs = [GetActiveComposer, GetBubblesForComposer composer]"
      by simp_all
    then show ?thesis by simp
  next
    case False
    obtain c2 cs2 r2 where
      e: "emitNewPairs (onNewPair env) (cache st) (newPairsOf env st fetched) = (c2, cs2, r2)"
      by (metis prod_cases3)
    with False t assms
    have "c' = c2" "cs = [GetActiveComposer, GetBubblesForComposer composer] @ cs2" "r = r2"
      by simp_all
    with e a(3) show ?thesis by blast
  qed
qed

lemma tryBlock_calls:
  assumes "tryBlock env st = (c', cs, r)" and "OnNewPair p \<in> set cs"
  shows "pairId p \<notin> dom (cache st)"
proof -
  from tryBlock_cases[OF assms(1)] assms(2) obtain composer fetched cs2 where
    e: "emitNewPairs (onNewPair env) (cache st) (newPairsOf env st fetched) = (c', cs2, r)"
    and cs: "cs = [GetActiveComposer, GetBubblesForComposer composer] @ cs2" by auto
  from cs assms(2) have "OnNewPair p \<in> set cs2" by simp
  from emitNewPairs_calls[OF e this] show ?thesis by (simp add: newPairsOf_def)
qed

lemma tryBlock_mono:
  assumes "tryBlock env st = (c', cs, r)"
  shows "dom (cache st) \<subseteq> dom c'"
proof -
  from tryBlock_cases[OF assms]
  show ?thesis
  proof
    assume "c' = cache st \<and> (\<forall>p. OnNewPair p \<notin> set cs) \<and> emittedIds cs = []"
    then show ?thesis by simp
  next
    assume "\<exists>composer fetched cs2.
             bubblesForComposer env composer = Inr fetched
           \<and> emitNewPairs (onNewPair env) (cache st) (newPairsOf env st fetched) = (c', cs2, r)
           \<and> cs = [GetActiveComposer, GetBubblesForComposer composer] @ cs2"
    then obtain fetched cs2 where
      "emitNewPairs (onNewPair env) (cache st) (newPairsOf env st fetched) = (c', cs2, r)" by blast
    then show ?thesis by (rule emitNewPairs_mono)
  qed
qed

lemma tryBlock_cache:
  assumes "tryBlock env st = (c', cs, r)" and h: "onNewPair env = Some h"
  shows "dom c' = dom (cache st) \<union> {pairId p | p. OnNewPair p \<in> set cs \<and> h p = None}"
proof -
  from tryBlock_cases[OF assms(1)]
  show ?thesis
  proof
    assume "c' = cache st \<and> (\<forall>p. OnNewPair p \<notin> set cs) \<and> emittedIds cs = []"
    then show ?thesis by auto
  next
    assume "\<exists>composer fetched cs2.
             bubblesForComposer env composer = Inr fetched
           \<and> emitNewPairs (onNewPair env) (cache st) (newPairsOf env st fetched) = (c', cs2, r)
           \<and> cs = [GetActiveComposer, GetBubblesForComposer composer] @ cs2"
    then obtain composer fetched cs2 where
      e: "emitNewPairs (Some h) (cache st) (newPairsOf env st fetched) = (c', cs2, r)"
      and cs: "cs = [GetActiveComposer, GetBubblesForComposer composer] @ cs2" using h by auto
    from emitNewPairs_Some[OF e] cs show ?thesis by auto
  qed
qed

lemma cycle_unfold:
  "\<not> isProcessing st \<Longrightarrow>
   tryBlock env (st\<lparr>pollTickCount := pollTickCount st + 1, isProcessing := True\<rparr>) = (c', cs, r) \<Longrightarrow>
   checkForNewPairs env st =
     \<lparr>after = st\<lparr>pollTickCount := pollTickCount st + 1, isProcessing := False, cache := c'\<rparr>,
      calls = cs, caught = r\<rparr>"
  by (simp add: checkForNewPairs_def checkForNewPairs_enter_def checkForNewPairs_body_def)

lemma cycle_skip:
  "isProcessing st \<Longrightarrow>
   checkForNewPairs env st =
     \<lparr>after = st\<lparr>pollTickCount := pollTickCount st + 1\<rparr>, calls = [], caught = None\<rparr>"
  by (simp add: checkForNewPairs_def checkForNewPairs_enter_def)

lemma cycle_calls:
  assumes "OnNewPair p \<in> set (calls (checkForNewPairs env st))"
  shows "pairId p \<notin> dom (cache st)"
proof (cases "isProcessing st")
  case True
  with assms show ?thesis by (simp add: cycle_skip)
next
  case False
  obtain c' cs r where
    t: "tryBlock env (st\<lparr>pollTickCount := pollTickCount st + 1, isProcessing := True\<rparr>) = (c', cs, r)"
    by (metis prod_cases3)
  from assms cycle_unfold[OF False t] have "OnNewPair p \<in> set cs" by simp
  from tryBlock_calls[OF t this] show ?thesis by simp
qed

lemma cycle_mono: "dom (cache st) \<subseteq> dom (cache (after (checkForNewPairs env st)))"
proof (cases "isProcessing st")
  case True
  then show ?thesis by (simp add: cycle_skip)
next
  case False
  obtain c' cs r where
    t: "tryBlock env (st\<lparr>pollTickCount := pollTickCount st + 1, isProcessing := True\<rparr>) = (c', cs, r)"
    by (metis prod_cases3)
  from tryBlock_mono[OF t] cycle_unfold[OF False t] show ?thesis by simp
qed

lemma cycle_cache:
  assumes "onNewPair env = Some h"
  shows "dom (cache (after (checkForNewPairs env st))) =
         dom (cache st) \<union> {pairId p | p. OnNewPair p \<in> set (calls (checkForNewPairs env st)) \<and> h p = None}"
proof (cases "isProcessing st")
  case True
  then show ?thesis by (simp add: cycle_skip)
next
  case False
  obtain c' cs r where
    t: "tryBlock env (st\<lparr>pollTickCount := pollTickCount st + 1, isProcessing := True\<rparr>) = (c', cs, r)"
    by (metis prod_cases3)
  from tryBlock_cache[OF t assms] cycle_unfold[OF False t] show ?thesis by simp
qed

lemma runCycles_cached:
  "k \<in> dom (cache st) \<Longrightarrow> k \<notin> set (emittedIds (snd (runCycles envs st)))"
proof (induction envs arbitrary: st)
  case Nil
  then show ?case by simp
next
  case (Cons env envs)
  have 1: "k \<notin> set (emittedIds (calls (checkForNewPairs env st)))"
    using cycle_calls[of _ env st] Cons.prems by (auto simp: emittedIds_mem)
  have "k \<in> dom (cache (after (checkForNewPairs env st)))"
    using cycle_mono[of st env] Cons.prems by blast
  then have 2: "k \<notin> set (emittedIds (snd (runCycles envs (after (checkForNewPairs env st)))))"
    by (rule Cons.IH)
  show ?case using 1 2
    by (cases "runCycles envs (after (checkForNewPairs env st))") (simp add: emittedIds_append)
qed

text \<open>The user turns of the pairs are a subsequence of the user turns fetched, so distinct
  ids of the latter give distinct ids of the pairs emitted in one cycle.\<close>

lemma subseq_distinctD: "subseq xs ys \<Longrightarrow> distinct ys \<Longrightarrow> distinct xs"
  by (induction rule: list_emb.induct) (auto dest: list_emb_set)

lemma subseq_users_pairsFrom:
  "subseq (map userBubble (pairsFrom u acc bs)) (u # filter (\<lambda>b. type b = User) bs)"
proof (induction bs arbitrary: u acc)
  case Nil
  then show ?case using closePair_cases[of u acc] by auto
next
  case (Cons b bs)
  show ?case
  proof (cases "type b = User")
    case True
    have "subseq (map userBubble (pairsFrom b [] bs)) (b # filter (\<lambda>b. type b = User) bs)"
      by (rule Cons.IH)
    then show ?thesis using True closePair_cases[of u acc] by auto
  next
    case False
    then show ?thesis using Cons.IH[of u "acc @ [b]"] by simp
  qed
qed

lemma subseq_users_pairsStart:
  "subseq (map userBubble (pairsStart xs)) (filter (\<lambda>b. type b = User) xs)"
proof (induction xs)
  case Nil
  then show ?case by simp
next
  case (Cons b bs)
  then show ?case using subseq_users_pairsFrom[of b "[]" bs] by simp
qed

lemma distinct_ids_sort:
  "distinct (map bubbleId (filter P (sort_key createdAt (xs :: Bubble list)))) =
   distinct (map bubbleId (filter P xs))"
  by (simp add: filter_sort distinct_map)

lemma newPairsOf_distinct:
  assumes "distinct (map bubbleId (filter (\<lambda>b. type b = User) fetched))"
  shows "distinct (map pairId (newPairsOf env st fetched))"
proof -
  let ?sorted = "sort_key createdAt fetched"
  have 1: "distinct (map bubbleId (filter (\<lambda>b. type b = User) ?sorted))"
    using assms by (simp add: distinct_ids_sort)
  have "subseq (map userBubble (pairBubbles ?sorted)) (filter (\<lambda>b. type b = User) ?sorted)"
    by (simp add: pairBubbles_pairsStart subseq_users_pairsStart)
  then have "subseq (map bubbleId (map userBubble (pairBubbles ?sorted)))
                    (map bubbleId (filter (\<lambda>b. type b = User) ?sorted))"
    by (rule subseq_map)
  then have 2: "distinct (map pairId (pairBubbles ?sorted))"
    using 1 by (auto simp: comp_def dest: subseq_distinctD)
  have "subseq (newPairsOf env st fetched) (pairBubbles ?sorted)"
    unfolding newPairsOf_def
    using completedPairsOf_subseq[of "dateNow env" "pairBubbles ?sorted"]
    by (meson subseq_filter_left subseq_order.order_trans)
  then have "subseq (map pairId (newPairsOf env st fetched)) (map pairId (pairBubbles ?sorted))"
    by (rule subseq_map)
  then show ?thesis using 2 by (rule subseq_distinctD)
qed

lemma tryBlock_distinct:
  assumes t: "tryBlock env st = (c', cs, r)"
    and d: "\<forall>composer fetched. bubblesForComposer env composer = Inr fetched \<longrightarrow>
              distinct (map bubbleId (filter (\<lambda>b. type b = User) fetched))"
  shows "distinct (emittedIds cs)"
proof -
  from tryBlock_cases[OF t]
  show ?thesis
  proof
    assume "c' = cache st \<and> (\<forall>p. OnNewPair p \<notin> set cs) \<and> emittedIds cs = []"
    then show ?thesis by simp
  next
    assume "\<exists>composer fetched cs2.
             bubblesForComposer env composer = Inr fetched
           \<and> emitNewPairs (onNewPair env) (cache st) (newPairsOf env st fetched) = (c', cs2, r)
           \<and> cs = [GetActiveComposer, GetBubblesForComposer composer] @ cs2"
    then obtain composer fetched cs2 where f: "bubblesForComposer env composer = Inr fetched"
      and e: "emitNewPairs (onNewPair env) (cache st) (newPairsOf env st fetched) = (c', cs2, r)"
      and cs: "cs = [GetActiveComposer, GetBubblesForComposer composer] @ cs2" by blast
    have "distinct (map pairId (newPairsOf env st fetched))"
      using d f by (intro newPairsOf_distinct) blast
    moreover have "prefix (emittedIds cs2) (map pairId (newPairsOf env st fetched))"
      using e by (rule emitNewPairs_prefix)
    ultimately have "distinct (emittedIds cs2)"
      by (meson prefix_imp_subseq subseq_distinctD)
    then show ?thesis using cs by simp
  qed
qed

lemma cycle_distinct:
  assumes "\<forall>composer fetched. bubblesForComposer env composer = Inr fetched \<longrightarrow>
              distinct (map bubbleId (filter (\<lambda>b. type b = User) fetched))"
  shows "distinct (emittedIds (calls (checkForNewPairs env st)))"
proof (cases "isProcessing st")
  case True
  then show ?thesis by (simp add: cycle_skip)
next
  case False
  obtain c' cs r where
    t: "tryBlock env (st\<lparr>pollTickCount := pollTickCount st + 1, isProcessing := True\<rparr>) = (c', cs, r)"
    by (metis prod_cases3)
  from tryBlock_distinct[OF t assms] cycle_unfold[OF False t] show ?thesis by simp
qed

subsection \<open>The git stage\<close>






lemma gitStage_skipped:
  "\<not> (\<exists>f\<in>set changed. filePath f \<noteq> NO_FILE_CHANGE) \<Longrightarrow> gitStage git changed g = (g, None)"
  by (simp add: gitStage_def)

subsection \<open>Statements about the poller\<close>

text \<open>
  Claim C1. For every turn sequence \<open>bs\<close> (so also for the turns sorted by creation
  time), the pairs that \<^verbatim>\<open>pairBubbles\<close> returns are given by positions of \<open>bs\<close>:
  each pair is a user turn \<open>j\<close> with assistant turns \<open>is\<close>. Every assistant turn \<open>i\<close>
  of a pair is an assistant turn whose nearest preceding user turn is the user turn
  \<open>j\<close> of that pair, and it belongs to the conversation of \<open>j\<close>; no position is an
  assistant turn of two pairs; and a turn with no user turn before it is in no pair.
\<close>

theorem pairBubbles_pairing_invariant:
  "pairBubbles bs =
     map (\<lambda>(j, is). \<lparr>userBubble = bs ! j, assistantBubbles = map ((!) bs) is\<rparr>) (pairIndices bs)
   \<and> (\<forall>(j, is)\<in>set (pairIndices bs). \<forall>i\<in>set is.
         nearestUser bs j i \<and> composerId (bs ! i) = composerId (bs ! j))
   \<and> (\<forall>k k' i. k < length (pairIndices bs) \<and> k' < length (pairIndices bs)
         \<and> i \<in> set (snd (pairIndices bs ! k)) \<and> i \<in> set (snd (pairIndices bs ! k')) \<longrightarrow> k = k')
   \<and> (\<forall>i. (\<forall>m<i. type (bs ! m) \<noteq> User) \<longrightarrow> (\<forall>(j, is)\<in>set (pairIndices bs). i \<notin> set is))"
proof (intro conjI)
  show "pairBubbles bs =
     map (\<lambda>(j, is). \<lparr>userBubble = bs ! j, assistantBubbles = map ((!) bs) is\<rparr>) (pairIndices bs)"
    by (rule pairBubbles_pairIndices)
  show "\<forall>(j, is)\<in>set (pairIndices bs). \<forall>i\<in>set is.
         nearestUser bs j i \<and> composerId (bs ! i) = composerId (bs ! j)"
    using pairIndices_good[of _ _ bs] by blast
  show "\<forall>k k' i. k < length (pairIndices bs) \<and> k' < length (pairIndices bs)
         \<and> i \<in> set (snd (pairIndices bs ! k)) \<and> i \<in> set (snd (pairIndices bs ! k')) \<longrightarrow> k = k'"
    using pairIndices_one_pair[of _ bs] by blast
  show "\<forall>i. (\<forall>m<i. type (bs ! m) \<noteq> User) \<longrightarrow> (\<forall>(j, is)\<in>set (pairIndices bs). i \<notin> set is)"
  proof (intro allI impI ballI)
    fix i x
    assume none: "\<forall>m<i. type (bs ! m) \<noteq> User" and x: "x \<in> set (pairIndices bs)"
    obtain j "is" where xe: "x = (j, is)" by (cases x)
    have "i \<notin> set is"
    proof
      assume "i \<in> set is"
      then have "nearestUser bs j i" using pairIndices_good[of j "is" bs i] x xe by simp
      then show False using none by (auto simp: nearestUser_def)
    qed
    then show "case x of (j, is) \<Rightarrow> i \<notin> set is" using xe by simp
  qed
qed

text \<open>Witness for C1: of seven turns, the leading assistant turn, the empty reply and the
  reply of another conversation are in no pair; turn 4 goes with the user turn 1 and
  turn 6 with the user turn 5.\<close>

theorem pairBubbles_pairing_invariant_witness:
  "pairIndices sample_turns = [(1, [4]), (5, [6])]
   \<and> pairBubbles sample_turns =
       [\<lparr>userBubble = sample_turns ! 1, assistantBubbles = [sample_turns ! 4]\<rparr>,
        \<lparr>userBubble = sample_turns ! 5, assistantBubbles = [sample_turns ! 6]\<rparr>]
   \<and> nearestUser sample_turns 1 4
   \<and> composerId (sample_turns ! 4) = composerId (sample_turns ! 1)
   \<and> nearestUser sample_turns 5 6
   \<and> type (sample_turns ! 0) = Assistant"
proof -
  have e: "pairIndices sample_turns = [(1, [4]), (5, [6])]" by code_simp
  have t: "type (sample_turns ! 0) = Assistant" by (simp add: sample_turns_def)
  show ?thesis using pairBubbles_pairing_invariant[of sample_turns] t unfolding e by simp
qed



text \<open>
  Claim C3, as amended. A cycle hands to the callback no pair whose id is in the cache
  when the cycle starts. The cache after a cycle is the cache before it together with
  the ids of the pairs for which the callback ran to completion in this cycle: an id is
  recorded only after its handler has completed. A pair whose handler completed is
  handed out by none of the cycles that follow, whatever they fetch, as long as the
  cache is not reset. Within one cycle no id is handed out twice when the user turns
  fetched have distinct ids.
\<close>

theorem checkForNewPairs_no_reemission:
  "(OnNewPair p \<in> set (calls (checkForNewPairs env st)) \<longrightarrow> bubbleId (userBubble p) \<notin> dom (cache st))
   \<and> (onNewPair env = Some handler \<longrightarrow>
        dom (cache (after (checkForNewPairs env st))) =
          dom (cache st) \<union>
          {bubbleId (userBubble q) | q. OnNewPair q \<in> set (calls (checkForNewPairs env st)) \<and> handler q = None})
   \<and> (onNewPair env = Some handler \<and> OnNewPair p \<in> set (calls (checkForNewPairs env st)) \<and> handler p = None \<longrightarrow>
        bubbleId (userBubble p) \<notin> set (emittedIds (snd (runCycles envs (after (checkForNewPairs env st))))))
   \<and> ((\<forall>composer fetched. bubblesForComposer env composer = Inr fetched \<longrightarrow>
          distinct (map bubbleId (filter (\<lambda>b. type b = User) fetched))) \<longrightarrow>
        distinct (emittedIds (calls (checkForNewPairs env st))))"
proof (intro conjI impI)
  assume "OnNewPair p \<in> set (calls (checkForNewPairs env st))"
  then show "bubbleId (userBubble p) \<notin> dom (cache st)" by (rule cycle_calls)
next
  assume "onNewPair env = Some handler"
  then show "dom (cache (after (checkForNewPairs env st))) =
          dom (cache st) \<union>
          {bubbleId (userBubble q) | q. OnNewPair q \<in> set (calls (checkForNewPairs env st)) \<and> handler q = None}"
    by (rule cycle_cache)
next
  assume a: "onNewPair env = Some handler \<and> OnNewPair p \<in> set (calls (checkForNewPairs env st)) \<and> handler p = None"
  then have "bubbleId (userBubble p) \<in> dom (cache (after (checkForNewPairs env st)))"
    using cycle_cache[of env handler st] by blast
  then show "bubbleId (userBubble p) \<notin> set (emittedIds (snd (runCycles envs (after (checkForNewPairs env st)))))"
    by (rule runCycles_cached)
next
  assume "\<forall>composer fetched. bubblesForComposer env composer = Inr fetched \<longrightarrow>
          distinct (map bubbleId (filter (\<lambda>b. type b = User) fetched))"
  then show "distinct (emittedIds (calls (checkForNewPairs env st)))" by (rule cycle_distinct)
qed

text \<open>Witness for C3: scenario A, polled 35 s after the reply with a handler that
  completes: the pair is emitted, its id is cached, and two later cycles on the same
  turns emit nothing.\<close>

theorem checkForNewPairs_no_reemission_witness:
  "calls (checkForNewPairs (scenarioA_env (\<lambda>p. None) 40000) newDetector) =
     [GetActiveComposer, GetBubblesForComposer ''c1'', OnNewPair scenarioA_pair]
   \<and> dom (cache (after (checkForNewPairs (scenarioA_env (\<lambda>p. None) 40000) newDetector))) = {''u1''}
   \<and> ''u1'' \<notin> set (emittedIds (snd (runCycles
         [scenarioA_env (\<lambda>p. None) 45000, scenarioA_env (\<lambda>p. Some (Error ''late'')) 50000]
         (after (checkForNewPairs (scenarioA_env (\<lambda>p. None) 40000) newDetector)))))
   \<and> distinct (emittedIds (calls (checkForNewPairs (scenarioA_env (\<lambda>p. None) 40000) newDetector)))"
proof -
  have c: "calls (checkForNewPairs (scenarioA_env (\<lambda>p. None) 40000) newDetector) =
     [GetActiveComposer, GetBubblesForComposer ''c1'', OnNewPair scenarioA_pair]" by code_simp
  have d: "distinct (map bubbleId (filter (\<lambda>b. type b = User) scenarioA_turns))"
    by (simp add: scenarioA_turns_def)
  have i: "bubbleId (userBubble scenarioA_pair) = ''u1''"
    by (simp add: scenarioA_pair_def scenarioA_turns_def)
  have n: "cache newDetector = Map.empty" by (simp add: newDetector_def)
  show ?thesis
    using checkForNewPairs_no_reemission[of scenarioA_pair "scenarioA_env (\<lambda>p. None) 40000" newDetector
        "\<lambda>p. None" "[scenarioA_env (\<lambda>p. None) 45000, scenarioA_env (\<lambda>p. Some (Error ''late'')) 50000]"] d
    unfolding c by (auto simp: scenarioA_env_def i n)
qed

text \<open>
  Counterexample for C3 as stated (each pair id is emitted at most once per process
  lifetime): on the same unchanged turns, a pair whose handler threw is handed out again
  by the next cycle, since its id was not recorded; and a pair whose handler completed
  is handed out again by the cycle that follows \<^verbatim>\<open>resetCache\<close>.
\<close>

theorem checkForNewPairs_reemission_counterexample:
  "emittedIds (snd (runCycles
      [scenarioA_env (\<lambda>p. Some (Error ''handler failed'')) 40000, scenarioA_env (\<lambda>p. None) 45000]
      newDetector)) = [''u1'', ''u1'']
   \<and> emittedIds (calls (checkForNewPairs (scenarioA_env (\<lambda>p. None) 40000) newDetector)) = [''u1'']
   \<and> emittedIds (calls (checkForNewPairs (scenarioA_env (\<lambda>p. None) 45000)
         (resetCache (after (checkForNewPairs (scenarioA_env (\<lambda>p. None) 40000) newDetector))))) = [''u1'']"
  by code_simp

text \<open>
  Claim C4. A tick that finds the flag set returns at once: it fetches nothing, calls
  no handler and leaves the cache as it is (only the tick counter moves); nothing of it
  is kept for later. A tick that finds the flag clear sets it before its first
  \<^verbatim>\<open>await\<close>. The flag is clear when the body ends, with or without an exception.
  So at most one cycle is in flight at any time, and the flag is set exactly when one
  is.
\<close>

theorem checkForNewPairs_single_flight:
  "(isProcessing st \<longrightarrow>
      checkForNewPairs env st =
        \<lparr>after = st\<lparr>pollTickCount := pollTickCount st + 1\<rparr>, calls = [], caught = None\<rparr>)
   \<and> (\<not> isProcessing st \<longrightarrow>
        fst (checkForNewPairs_enter st) \<and> isProcessing (snd (checkForNewPairs_enter st)))
   \<and> \<not> isProcessing (after (checkForNewPairs_body env st))
   \<and> (\<not> isProcessing st \<longrightarrow> \<not> isProcessing (after (checkForNewPairs env st)))
   \<and> (inFlight st n \<longrightarrow> n \<le> 1 \<and> (isProcessing st = (n = 1)))"
proof (intro conjI impI)
  assume "isProcessing st"
  then show "checkForNewPairs env st =
        \<lparr>after = st\<lparr>pollTickCount := pollTickCount st + 1\<rparr>, calls = [], caught = None\<rparr>"
    by (rule cycle_skip)
next
  assume "\<not> isProcessing st"
  then show "fst (checkForNewPairs_enter st)" "isProcessing (snd (checkForNewPairs_enter st))"
    "\<not> isProcessing (after (checkForNewPairs env st))"
    by (simp_all add: checkForNewPairs_enter_def checkForNewPairs_def checkForNewPairs_body_def
        split: prod.splits)
next
  show "\<not> isProcessing (after (checkForNewPairs_body env st))"
    by (simp add: checkForNewPairs_body_def split: prod.splits)
next
  assume "inFlight st n"
  then show "n \<le> 1" "isProcessing st = (n = 1)" using inFlight_flag[of st n] by (simp_all split: if_splits)
qed

text \<open>Witness for C4: a tick on a busy detector is skipped; a tick on a fresh detector
  makes it busy; a cycle in which the conversation store throws ends with the flag
  clear.\<close>

theorem checkForNewPairs_single_flight_witness:
  "isProcessing busyDetector
   \<and> checkForNewPairs (scenarioA_env (\<lambda>p. None) 40000) busyDetector =
       \<lparr>after = \<lparr>cache = Map.empty, isProcessing = True, pollTickCount = 2\<rparr>, calls = [], caught = None\<rparr>
   \<and> checkForNewPairs_enter newDetector = (True, busyDetector)
   \<and> inFlight busyDetector 1
   \<and> caught (checkForNewPairs_body
        \<lparr>activeComposer = Inr (Some ''c1''), bubblesForComposer = (\<lambda>composer. Inl (Error ''db locked'')),
         dateNow = 0, onNewPair = None\<rparr> busyDetector) = Some (Error ''db locked'')
   \<and> \<not> isProcessing (after (checkForNewPairs_body
        \<lparr>activeComposer = Inr (Some ''c1''), bubblesForComposer = (\<lambda>composer. Inl (Error ''db locked'')),
         dateNow = 0, onNewPair = None\<rparr> busyDetector))"
proof -
  have e: "checkForNewPairs_enter newDetector = (True, busyDetector)"
    by (simp add: checkForNewPairs_enter_def newDetector_def busyDetector_def)
  have f: "inFlight busyDetector 1" using inFlight.tick[OF inFlight.start e] by simp
  have b: "isProcessing busyDetector" by (simp add: busyDetector_def)
  show ?thesis
    using checkForNewPairs_single_flight[of busyDetector "scenarioA_env (\<lambda>p. None) 40000" 1]
      checkForNewPairs_single_flight[of busyDetector
        "\<lparr>activeComposer = Inr (Some ''c1''), bubblesForComposer = (\<lambda>composer. Inl (Error ''db locked'')),
          dateNow = 0, onNewPair = None\<rparr>" 1] e f b
    by (simp add: busyDetector_def checkForNewPairs_body_def tryBlock_def)
qed

subsection \<open>Statements about the diff resolver\<close>

text \<open>
  Claim C6, as amended. A hunk whose structured fields give the start \<open>s\<close> and a
  count \<open>n > 0\<close> has the range \<open>[s, s+n-1]\<close>. A hunk without both fields, or with a
  count that is not positive, has the range parsed from its header, if it has a header
  and the header yields one. A header \<^verbatim>\<open>@@ -a[,b] +c[,d] @@\<close>, whatever follows
  it, yields \<open>[c, c]\<close> when \<open>d\<close> is omitted, \<open>[c, c+d-1]\<close> when \<open>d > 0\<close>, and no
  range when \<open>d = 0\<close>. The header \<^verbatim>\<open>@@ -1,0 +1,3 @@\<close> yields \<open>[1,3]\<close>, and that is
  the range recorded for the file.
\<close>

theorem chunkRange_new_range:
  "(newStart chunk = Some s \<and> newLines chunk = Some n \<and> 0 < n \<longrightarrow>
      chunkRange chunk = Some \<lparr>start = s, end = s + n - 1\<rparr>)
   \<and> (newStart chunk = None \<or> newLines chunk = None \<or> (\<exists>k. newLines chunk = Some k \<and> k \<le> 0) \<longrightarrow>
        chunkRange chunk = (case content chunk of Some header \<Rightarrow> extractNewRange header | None \<Rightarrow> None))
   \<and> (digits a \<and> digits c \<and> (\<forall>b'. b = Some b' \<longrightarrow> digits b') \<and> (\<forall>d'. d = Some d' \<longrightarrow> digits d') \<longrightarrow>
        extractNewRange (hunkHeader a b c d @ tail) =
          (case d of
             None \<Rightarrow> Some \<lparr>start = parseInt c, end = parseInt c\<rparr>
           | Some d' \<Rightarrow> if 0 < parseInt d'
                         then Some \<lparr>start = parseInt c, end = parseInt c + parseInt d' - 1\<rparr>
                         else None))
   \<and> extractNewRange ''@@ -1,0 +1,3 @@'' = Some \<lparr>start = 1, end = 3\<rparr>
   \<and> lineRangesFromParsed (\<lambda>p. p)
        [\<lparr>to = Some ''a.py'', path = None,
          chunks = Some [\<lparr>content = Some ''@@ -1,0 +1,3 @@'', newStart = None, newLines = None\<rparr>]\<rparr>]
      = [(''a.py'', [\<lparr>start = 1, end = 3\<rparr>])]"
proof (intro conjI impI)
  assume "newStart chunk = Some s \<and> newLines chunk = Some n \<and> 0 < n"
  then show "chunkRange chunk = Some \<lparr>start = s, end = s + n - 1\<rparr>" by (simp add: chunkRange_def)
next
  assume "newStart chunk = None \<or> newLines chunk = None \<or> (\<exists>k. newLines chunk = Some k \<and> k \<le> 0)"
  then show "chunkRange chunk = (case content chunk of Some header \<Rightarrow> extractNewRange header | None \<Rightarrow> None)"
    by (auto simp: chunkRange_def)
next
  assume a: "digits a \<and> digits c \<and> (\<forall>b'. b = Some b' \<longrightarrow> digits b') \<and> (\<forall>d'. d = Some d' \<longrightarrow> digits d')"
  have b: "case b of None \<Rightarrow> True | Some b' \<Rightarrow> digits b'" using a by (simp split: option.splits)
  have d: "case d of None \<Rightarrow> True | Some d' \<Rightarrow> digits d'" using a by (simp split: option.splits)
  show "extractNewRange (hunkHeader a b c d @ tail) =
          (case d of
             None \<Rightarrow> Some \<lparr>start = parseInt c, end = parseInt c\<rparr>
           | Some d' \<Rightarrow> if 0 < parseInt d'
                         then Some \<lparr>start = parseInt c, end = parseInt c + parseInt d' - 1\<rparr>
                         else None)"
    using a b d by (intro extractNewRange_hunkHeader) simp_all
next
  show "extractNewRange ''@@ -1,0 +1,3 @@'' = Some \<lparr>start = 1, end = 3\<rparr>" by code_simp
next
  show "lineRangesFromParsed (\<lambda>p. p)
        [\<lparr>to = Some ''a.py'', path = None,
          chunks = Some [\<lparr>content = Some ''@@ -1,0 +1,3 @@'', newStart = None, newLines = None\<rparr>]\<rparr>]
      = [(''a.py'', [\<lparr>start = 1, end = 3\<rparr>])]" by code_simp
qed

text \<open>Witness for C6: a hunk with structured fields, a hunk with a header only, and a
  header without counts.\<close>

theorem chunkRange_new_range_witness:
  "chunkRange \<lparr>content = Some ''@@ -9 +5,2 @@'', newStart = Some 5, newLines = Some 2\<rparr>
     = Some \<lparr>start = 5, end = 6\<rparr>
   \<and> chunkRange \<lparr>content = Some ''@@ -10,2 +27,10 @@ def f():'', newStart = None, newLines = None\<rparr>
     = Some \<lparr>start = 27, end = 36\<rparr>
   \<and> digits ''10'' \<and> digits ''2'' \<and> digits ''27''
   \<and> hunkHeader ''10'' (Some ''2'') ''27'' (Some ''10'') @ '' def f():'' = ''@@ -10,2 +27,10 @@ def f():''
   \<and> parseInt ''27'' = 27 \<and> parseInt ''10'' = 10
   \<and> hunkHeader ''4'' None ''7'' None = ''@@ -4 +7 @@''
   \<and> extractNewRange ''@@ -4 +7 @@'' = Some \<lparr>start = 7, end = 7\<rparr>"
proof -
  have g: "digits ''10''" "digits ''2''" "digits ''27''" "digits ''4''" "digits ''7''"
    by (simp_all add: digits_def isDigit_def)
  have h: "hunkHeader ''10'' (Some ''2'') ''27'' (Some ''10'') @ '' def f():'' = ''@@ -10,2 +27,10 @@ def f():''"
    "hunkHeader ''4'' None ''7'' None @ [] = ''@@ -4 +7 @@''"
    by (simp_all add: hunkHeader_def)
  have p: "parseInt ''27'' = 27" "parseInt ''10'' = 10" "parseInt ''7'' = 7"
    by (simp_all add: parseInt_def)
  show ?thesis
    using chunkRange_new_range[of "\<lparr>content = Some ''@@ -9 +5,2 @@'', newStart = Some 5, newLines = Some 2\<rparr>"
          5 2 "''10''" "''27''" "Some ''2''" "Some ''10''" "'' def f():''"]
      chunkRange_new_range[of
          "\<lparr>content = Some ''@@ -10,2 +27,10 @@ def f():'', newStart = None, newLines = None\<rparr>"
          0 0 "''4''" "''7''" None None "[]"]
      g h p
    by simp
qed

text \<open>Counterexample for C6 as stated (every hunk has the range \<open>[start, start+count-1]\<close>):
  a hunk that only deletes lines has the count 0 and gets no range, neither from its
  header nor from its structured fields.\<close>

theorem chunkRange_zero_count_counterexample:
  "extractNewRange ''@@ -3,2 +2,0 @@'' = None
   \<and> chunkRange \<lparr>content = Some ''@@ -3,2 +2,0 @@'', newStart = Some 2, newLines = Some 0\<rparr> = None"
  by code_simp

subsection \<open>Statements about the pipeline\<close>

text \<open>
  Claim C7, on failing inputs. The change log names \<^verbatim>\<open>a.py\<close> for the window of
  the pair, and \<^verbatim>\<open>git diff\<close> prints nothing (as for a file that is new and
  untracked) or fails. The diff resolver returns no file in both cases, the failure
  being swallowed by \<^verbatim>\<open>runDiff\<close>; so \<^verbatim>\<open>enrichPairWithFiles\<close> does not reach
  its \<^verbatim>\<open>catch\<close> branch and returns no changed file, where the claim asks for the
  range \<open>[1,1]\<close> for \<^verbatim>\<open>a.py\<close>. With no editor open the pair pipeline then puts
  the placeholder in its place and stores nothing. On the same inputs
  \<^verbatim>\<open>runAiContextPipeline\<close> does give \<^verbatim>\<open>a.py\<close> the range \<open>[1,1]\<close>.
\<close>

theorem enrichPairWithFiles_drops_candidates:
  "getDiffLineRanges_fn brokenGit (Some [''a.py'']) = Inr []
   \<and> enrichPairWithFiles (\<lambda>t0 t1. [''a.py'']) (getDiffLineRanges_fn brokenGit) scenarioA_pair
       = Inr (scenarioA_enriched [])
   \<and> enrichPairWithFiles (\<lambda>t0 t1. [''a.py'']) (getDiffLineRanges_fn cleanGit) scenarioA_pair
       = Inr (scenarioA_enriched [])
   \<and> getDiffLineRanges_fn cleanGit (Some [''a.py'']) = Inr []
   \<and> runAiContextPipelineForPair (\<lambda>t0 t1. [''a.py'']) (getDiffLineRanges_fn cleanGit) None gitOk
        scenarioA_pair (onFeature, Map.empty)
       = ((onFeature, Map.empty), Inr True)
   \<and> runAiContextPipeline_ranges [''a.py''] (getDiffLineRanges_fn brokenGit)
       = Inr [(''a.py'', [\<lparr>start = 1, end = 1\<rparr>])]
   \<and> runAiContextPipeline_ranges [''a.py''] (getDiffLineRanges_fn cleanGit)
       = Inr [(''a.py'', [\<lparr>start = 1, end = 1\<rparr>])]"
proof -
  have d: "getDiffLineRanges_fn brokenGit = (\<lambda>paths. Inr [])"
    "getDiffLineRanges_fn cleanGit = (\<lambda>paths. Inr [])"
    by (auto simp: getDiffLineRanges_fn_def runDiff_def brokenGit_def cleanGit_def fun_eq_iff
        split: option.splits)
  have e: "enrichPairWithFiles (\<lambda>t0 t1. [''a.py'']) (\<lambda>paths. Inr []) scenarioA_pair
       = Inr (scenarioA_enriched [])"
    by (simp add: enrichPairWithFiles_def scenarioA_pair_def scenarioA_turns_def scenarioA_enriched_def
        lineRangesByFileToFilesArray_def)
  have n: "\<not> (\<exists>f\<in>set [\<lparr>filePath = NO_FILE_CHANGE, lineRanges = [\<lparr>start = 1, end = 1\<rparr>]\<rparr>].
               filePath f \<noteq> NO_FILE_CHANGE)" by simp
  have p: "runAiContextPipelineForPair (\<lambda>t0 t1. [''a.py'']) (\<lambda>paths. Inr []) None gitOk
        scenarioA_pair (onFeature, Map.empty) = ((onFeature, Map.empty), Inr True)"
    using gitStage_skipped[OF n, of gitOk onFeature]
    by (simp add: runAiContextPipelineForPair_def e scenarioA_enriched_def fallbackFiles_def
        saveEnrichedPairMetadata_def effectiveFiles_def)
  have r: "runAiContextPipeline_ranges [''a.py''] (\<lambda>paths. Inr [])
       = Inr [(''a.py'', [\<lparr>start = 1, end = 1\<rparr>])]"
    by (simp add: runAiContextPipeline_ranges_def)
  show ?thesis unfolding d using e p r by simp
qed

text \<open>The pair pipeline once the enrichment has returned.\<close>

lemma pipeline_unfold:
  "enrichPairWithFiles getFilePathsBetween getDiffLineRanges pair = Inr enriched \<Longrightarrow>
   runAiContextPipelineForPair getFilePathsBetween getDiffLineRanges activeTextEditor git pair (g, store) =
     (saveEnrichedPairMetadata git
         (enriched\<lparr>changedFiles := fallbackFiles activeTextEditor (changedFiles enriched)\<rparr>)
         (snd (gitStage git (fallbackFiles activeTextEditor (changedFiles enriched)) g))
         (fst (gitStage git (fallbackFiles activeTextEditor (changedFiles enriched)) g), store),
      Inr True)"
  by (simp add: runAiContextPipelineForPair_def Let_def split: prod.splits)

text \<open>
  Claim C8, on failing inputs. A repository on \<^verbatim>\<open>feature/x\<close> that has no snapshot
  branch yet, and no git command fails for an outside reason: the run creates the
  orphan branch, empties the index, commits \<^verbatim>\<open>a.py\<close>, and the restoration checkout
  is refused because \<^verbatim>\<open>README.md\<close>, which \<^verbatim>\<open>feature/x\<close> tracks, is now an
  untracked file; the stage, and the pair pipeline, end on the snapshot branch. A
  repository with a detached \<^verbatim>\<open>HEAD\<close>: the recorded name is \<^verbatim>\<open>HEAD\<close>, the
  restoration checkout moves nothing, and the stage ends on the snapshot branch. On
  \<^verbatim>\<open>feature/x\<close> with the snapshot branch in place the stage ends on \<^verbatim>\<open>feature/x\<close>.
\<close>

theorem gitStage_leaves_snapshot_branch:
  "headRef onFeature = OnBranch ''feature/x''
   \<and> gitStage (gitOk\<lparr>branchLocal := Inr [''main'', ''feature/x'']\<rparr>)
        [\<lparr>filePath = ''a.py'', lineRanges = [\<lparr>start = 1, end = 3\<rparr>]\<rparr>] onFeature
     = (\<lparr>headRef = OnBranch ''ai-context-dev'', indexPaths = [''a.py''],
         untrackedPaths = [''README.md''], savedBranchBeforeAiContext = None,
         issued = [RevParseHead, BranchLocal, CheckoutOrphan ''ai-context-dev'', RmCached,
                   AddAndCommit [''a.py''], Checkout ''feature/x'']\<rparr>, Some ''abc1234'')
   \<and> headRef (fst (fst (runAiContextPipelineForPair (\<lambda>t0 t1. [''a.py''])
          (\<lambda>paths. Inr [(''a.py'', [\<lparr>start = 1, end = 3\<rparr>])]) None
          (gitOk\<lparr>branchLocal := Inr [''main'', ''feature/x'']\<rparr>) scenarioA_pair
          (onFeature, Map.empty)))) = OnBranch ''ai-context-dev''
   \<and> gitStage gitOk [\<lparr>filePath = ''a.py'', lineRanges = [\<lparr>start = 1, end = 3\<rparr>]\<rparr>]
        (onFeature\<lparr>headRef := Detached ''9fceb02''\<rparr>)
     = (\<lparr>headRef = OnBranch ''ai-context-dev'', indexPaths = [''a.py''],
         untrackedPaths = [], savedBranchBeforeAiContext = None,
         issued = [RevParseHead, BranchLocal, Checkout ''ai-context-dev'', AddAndCommit [''a.py''],
                   Checkout ''HEAD'']\<rparr>, Some ''abc1234'')
   \<and> gitStage gitOk [\<lparr>filePath = ''a.py'', lineRanges = [\<lparr>start = 1, end = 3\<rparr>]\<rparr>] onFeature
     = (\<lparr>headRef = OnBranch ''feature/x'', indexPaths = [''README.md'', ''a.py''],
         untrackedPaths = [], savedBranchBeforeAiContext = None,
         issued = [RevParseHead, BranchLocal, Checkout ''ai-context-dev'', AddAndCommit [''a.py''],
                   Checkout ''feature/x'']\<rparr>, Some ''abc1234'')"
proof -
  have n: "''a.py'' \<noteq> NO_FILE_CHANGE" by (simp add: NO_FILE_CHANGE_def)
  have 1: "gitStage (gitOk\<lparr>branchLocal := Inr [''main'', ''feature/x'']\<rparr>)
        [\<lparr>filePath = ''a.py'', lineRanges = [\<lparr>start = 1, end = 3\<rparr>]\<rparr>] onFeature
     = (\<lparr>headRef = OnBranch ''ai-context-dev'', indexPaths = [''a.py''],
         untrackedPaths = [''README.md''], savedBranchBeforeAiContext = None,
         issued = [RevParseHead, BranchLocal, CheckoutOrphan ''ai-context-dev'', RmCached,
                   AddAndCommit [''a.py''], Checkout ''feature/x'']\<rparr>, Some ''abc1234'')"
    using n
    by (simp add: gitStage_def ensureAiContextBranch_def commitMatchedFiles_def restoreBranch_def
        gitCheckout_def revparseAbbrevRefHead_def gitOk_def onFeature_def Let_def)
  have 2: "gitStage gitOk [\<lparr>filePath = ''a.py'', lineRanges = [\<lparr>start = 1, end = 3\<rparr>]\<rparr>]
        (onFeature\<lparr>headRef := Detached ''9fceb02''\<rparr>)
     = (\<lparr>headRef = OnBranch ''ai-context-dev'', indexPaths = [''a.py''],
         untrackedPaths = [], savedBranchBeforeAiContext = None,
         issued = [RevParseHead, BranchLocal, Checkout ''ai-context-dev'', AddAndCommit [''a.py''],
                   Checkout ''HEAD'']\<rparr>, Some ''abc1234'')"
    using n
    by (simp add: gitStage_def ensureAiContextBranch_def commitMatchedFiles_def restoreBranch_def
        gitCheckout_def revparseAbbrevRefHead_def gitOk_def onFeature_def Let_def)
  have 3: "gitStage gitOk [\<lparr>filePath = ''a.py'', lineRanges = [\<lparr>start = 1, end = 3\<rparr>]\<rparr>] onFeature
     = (\<lparr>headRef = OnBranch ''feature/x'', indexPaths = [''README.md'', ''a.py''],
         untrackedPaths = [], savedBranchBeforeAiContext = None,
         issued = [RevParseHead, BranchLocal, Checkout ''ai-context-dev'', AddAndCommit [''a.py''],
                   Checkout ''feature/x'']\<rparr>, Some ''abc1234'')"
    using n
    by (simp add: gitStage_def ensureAiContextBranch_def commitMatchedFiles_def restoreBranch_def
        gitCheckout_def revparseAbbrevRefHead_def gitOk_def onFeature_def Let_def)
  have e: "enrichPairWithFiles (\<lambda>t0 t1. [''a.py'']) (\<lambda>paths. Inr [(''a.py'', [\<lparr>start = 1, end = 3\<rparr>])])
             scenarioA_pair
       = Inr (scenarioA_enriched [\<lparr>filePath = ''a.py'', lineRanges = [\<lparr>start = 1, end = 3\<rparr>]\<rparr>])"
    by (simp add: enrichPairWithFiles_def scenarioA_pair_def scenarioA_turns_def scenarioA_enriched_def
        lineRangesByFileToFilesArray_def)
  have 4: "headRef (fst (fst (runAiContextPipelineForPair (\<lambda>t0 t1. [''a.py''])
          (\<lambda>paths. Inr [(''a.py'', [\<lparr>start = 1, end = 3\<rparr>])]) None
          (gitOk\<lparr>branchLocal := Inr [''main'', ''feature/x'']\<rparr>) scenarioA_pair
          (onFeature, Map.empty)))) = OnBranch ''ai-context-dev''"
    using 1
    by (simp add: pipeline_unfold[OF e] scenarioA_enriched_def fallbackFiles_def
        saveEnrichedPairMetadata_def)
  show ?thesis using 1 2 3 4 by (simp add: onFeature_def)
qed





end
